theory Spec2Isabelle
  imports Complex_Main "HOL-Library.Word" "HOL-Library.AList" "HOL-Library.Multiset"
begin

section \<open>DOKVS: a key-value store over a SQL table (src/cfobj.ts)\<close>

text \<open>
  The class \<open>DOKVS\<close> keeps its entries in one SQL table \<open>dokvs(key, val, ttl, vtype)\<close> and
  two instance fields, \<open>#interval\<close> and \<open>#timing\<close>. The model below follows the source
  method by method.

  Conventions of the embedding:
  \<^item> a JavaScript \<open>number\<close> argument is a \<open>real\<close> (the finite values; \<open>NaN\<close> and the
    infinities are not modelled); everything the code passes through \<open>Math.trunc\<close> is an
    \<open>int\<close> afterwards, and the sum of two such numbers is the sum of two doubles;
  \<^item> every operation takes the value \<open>t\<close> that \<open>DOKVS.now()\<close> returns while it runs;
  \<^item> a JavaScript string is a \<open>string\<close> (well-formed text, which the storage holds and
    returns as it is), an \<open>ArrayBuffer\<close> a list of bytes;
  \<^item> a thrown exception is the \<open>Inl\<close> of a sum, \<open>undefined\<close> is \<open>None\<close>;
  \<^item> the table is the list of its rows; each SQL statement of the source is a function on
    that list. What the statements leave to the storage engine is a parameter of the model
    (\<open>engine\<close> below), and the theorems hold for every engine;
  \<^item> the writes that the source queues with \<open>ctx.waitUntil(Promise.resolve().then(...))\<close>
    are modelled at the point where they run.
\<close>

subsection \<open>Numbers\<close>

definition Math_trunc :: "real \<Rightarrow> int" where
  "Math_trunc x = (if x < 0 then \<lceil>x\<rceil> else \<lfloor>x\<rfloor>)"

definition truthy :: "bool option \<Rightarrow> bool" where
  "truthy b = (case b of None \<Rightarrow> False | Some v \<Rightarrow> v)"

text \<open>
  \<open>a + b\<close> on two whole numbers held as doubles: the double nearest to the exact sum, a tie
  going to the even mantissa. A whole number of magnitude up to \<open>2^53\<close> is a double; beyond
  that the doubles are the multiples of \<open>ulp\<close>, the power of two that leaves 53 significant
  bits. (\<open>DOKVS.now()\<close> stays below \<open>2^53\<close> and an interval is a finite double, so no sum of
  the source comes near \<open>2^1024\<close>, where JavaScript would give an infinity.)
\<close>

function ulp :: "nat \<Rightarrow> nat" where
  "ulp n = (if n < 2 ^ 53 then 1 else 2 * ulp (n div 2))"
  by pat_completeness auto
termination
  by (relation "measure id") auto

declare ulp.simps [simp del]

definition to_double :: "int \<Rightarrow> int" where
  "to_double x =
     (if \<bar>x\<bar> \<le> 2 ^ 53 then x
      else (let u = int (ulp (nat \<bar>x\<bar>));
                q = \<bar>x\<bar> div u;
                r = \<bar>x\<bar> mod u;
                m = (if 2 * r < u \<or> (2 * r = u \<and> even q) then q else q + 1)
            in sgn x * (m * u)))"

definition js_add :: "int \<Rightarrow> int \<Rightarrow> int" where
  "js_add a b = to_double (a + b)"

subsection \<open>Value codec\<close>

datatype error = TypeError | SqlError

datatype KVValue = Str string | Buf "8 word list"

definition VTYPE_string :: int where
  "VTYPE_string = 0"

definition VTYPE_buffer :: int where
  "VTYPE_buffer = 1"

text \<open>\<open>x.toString(16)\<close> on a non-negative integer, and \<open>padStart\<close> with a one-character filler.\<close>

definition hexdigit :: "nat \<Rightarrow> char" where
  "hexdigit d = (if d < 10 then char_of (48 + d) else char_of (87 + d))"

function toString16 :: "nat \<Rightarrow> string" where
  "toString16 n =
     (if n < 16 then [hexdigit n] else toString16 (n div 16) @ [hexdigit (n mod 16)])"
  by pat_completeness auto
termination
  by (relation "measure id") auto

declare toString16.simps [simp del]

definition padStart :: "nat \<Rightarrow> char \<Rightarrow> string \<Rightarrow> string" where
  "padStart n c s = replicate (n - length s) c @ s"

definition bin2str :: "8 word list \<Rightarrow> string" where
  "bin2str bin = concat (map (\<lambda>x. padStart 2 (CHR ''0'') (toString16 (unat x))) bin)"

text \<open>
  \<open>str.match(/.{2}/g)\<close>: the successive two-character groups, scanning from the left; the dot
  matches no line terminator; the result is \<open>null\<close> when there is no group at all.
\<close>

definition dot_char :: "char \<Rightarrow> bool" where
  "dot_char c = (of_char c \<noteq> (10::nat) \<and> of_char c \<noteq> (13::nat))"

fun match_pairs :: "string \<Rightarrow> string list" where
  "match_pairs (a # b # rest) =
     (if dot_char a \<and> dot_char b then [a, b] # match_pairs rest else match_pairs (b # rest))"
| "match_pairs _ = []"

definition str_match :: "string \<Rightarrow> string list option" where
  "str_match s = (case match_pairs s of [] \<Rightarrow> None | m # ms \<Rightarrow> Some (m # ms))"

text \<open>
  \<open>parseInt(x, 16)\<close>: leading white space, a sign and a \<open>0x\<close> prefix are skipped, then the
  longest run of hexadecimal digits is read; \<open>NaN\<close> (here \<open>None\<close>) when that run is empty.
  Storing the number in a \<open>Uint8Array\<close> keeps it modulo 256, and \<open>NaN\<close> as 0.
\<close>

definition hexval :: "char \<Rightarrow> nat option" where
  "hexval c = (let n = (of_char c :: nat) in
     if 48 \<le> n \<and> n \<le> 57 then Some (n - 48)
     else if 97 \<le> n \<and> n \<le> 102 then Some (n - 87)
     else if 65 \<le> n \<and> n \<le> 70 then Some (n - 55)
     else None)"

fun parse_digits :: "nat \<Rightarrow> string \<Rightarrow> nat" where
  "parse_digits acc [] = acc"
| "parse_digits acc (c # cs) =
     (case hexval c of None \<Rightarrow> acc | Some d \<Rightarrow> parse_digits (16 * acc + d) cs)"

definition is_space :: "char \<Rightarrow> bool" where
  "is_space c = ((of_char c :: nat) \<in> {9, 10, 11, 12, 13, 32})"

definition parseInt16 :: "string \<Rightarrow> int option" where
  "parseInt16 s =
     (let s1 = dropWhile is_space s;
          neg = (case s1 of [] \<Rightarrow> False | c # _ \<Rightarrow> c = CHR ''-'');
          s2 = (case s1 of [] \<Rightarrow> s1
                | c # cs \<Rightarrow> if c = CHR ''+'' \<or> c = CHR ''-'' then cs else s1);
          s3 = (case s2 of a # b # cs \<Rightarrow>
                  if a = CHR ''0'' \<and> (b = CHR ''x'' \<or> b = CHR ''X'') then cs else s2
                | _ \<Rightarrow> s2)
      in case s3 of [] \<Rightarrow> None
         | c # _ \<Rightarrow> (case hexval c of None \<Rightarrow> None
                     | Some _ \<Rightarrow> Some ((if neg then - 1 else 1) * int (parse_digits 0 s3))))"

definition ToUint8 :: "int option \<Rightarrow> 8 word" where
  "ToUint8 x = (case x of None \<Rightarrow> 0 | Some n \<Rightarrow> word_of_int n)"

definition str2bin :: "string \<Rightarrow> error + 8 word list" where
  "str2bin str = (case str_match str of None \<Rightarrow> Inl TypeError
     | Some ms \<Rightarrow> Inr (map (\<lambda>x. ToUint8 (parseInt16 x)) ms))"

definition toStoreValue :: "KVValue \<Rightarrow> string \<times> int" where
  "toStoreValue v = (case v of Str s \<Rightarrow> (s, VTYPE_string)
     | Buf b \<Rightarrow> (bin2str b, VTYPE_buffer))"

definition toUseValue :: "string \<Rightarrow> int \<Rightarrow> error + KVValue option" where
  "toUseValue v vt =
     (if vt = VTYPE_string then Inr (Some (Str v))
      else if vt = VTYPE_buffer then
        (case str2bin v of Inl e \<Rightarrow> Inl e | Inr b \<Rightarrow> Inr (Some (Buf b)))
      else Inr None)"

subsection \<open>The table, the storage engine and the SQL statements\<close>

record 'k row =
  key :: 'k
  val :: string
  ttl :: int
  vtype :: int

text \<open>
  What the SQL statements of the source leave to the storage engine:
  \<^item> \<open>affinity\<close>: the value that the column \<open>key\<close> holds for a text bound to it, which is
    also the value that a text is compared as in \<open>where key = ?\<close> and in the conflict test of
    the upsert (the source declares the column \<open>key string\<close>, so the engine turns a text that
    reads as a number into that number);
  \<^item> \<open>text_of\<close>: the text of a stored key, which \<open>like\<close> matches against;
  \<^item> \<open>read_key\<close>: the JavaScript value that a stored key is read as;
  \<^item> \<open>list_order\<close>: the order in which the statement \<open>#LIST\<close>, which has no \<open>order by\<close>,
    delivers the rows that satisfy its condition, given its pattern and time;
  \<^item> \<open>like_raises\<close>: whether the engine refuses the statement \<open>#LIST\<close> for this pattern, time
    and table (it raises an error for a pattern beyond its length bound).
\<close>

record ('k, 'j) engine =
  affinity :: "string \<Rightarrow> 'k"
  text_of :: "'k \<Rightarrow> string"
  read_key :: "'k \<Rightarrow> 'j"
  list_order :: "string \<Rightarrow> int \<Rightarrow> 'k row list \<Rightarrow> 'k row list"
  like_raises :: "string \<Rightarrow> int \<Rightarrow> 'k row list \<Rightarrow> bool"

text \<open>An engine delivers each row that satisfies the condition, once.\<close>

definition engine_ok :: "('k, 'j) engine \<Rightarrow> bool" where
  "engine_ok eng = (\<forall>pat t rows. mset (list_order eng pat t rows) = mset rows)"

definition live :: "int \<Rightarrow> 'k row \<Rightarrow> bool" where
  "live t r = (ttl r = 0 \<or> ttl r \<ge> t)"

text \<open>
  SQL \<open>LIKE\<close> as the storage engine evaluates it: \<open>%\<close> stands for any run of characters, \<open>_\<close>
  for any one character, and ASCII letters compare without regard to case.
\<close>

definition lower_ascii :: "char \<Rightarrow> char" where
  "lower_ascii c = (let n = (of_char c :: nat) in
     if 65 \<le> n \<and> n \<le> 90 then char_of (n + 32) else c)"

fun like :: "string \<Rightarrow> string \<Rightarrow> bool" where
  "like [] s = (s = [])"
| "like (p # ps) [] = (p = CHR ''%'' \<and> like ps [])"
| "like (p # ps) (c # cs) =
     (if p = CHR ''%'' then like ps (c # cs) \<or> like (p # ps) cs
      else if p = CHR ''_'' then like ps cs
      else lower_ascii p = lower_ascii c \<and> like ps cs)"

fun UPSERT ::
  "('k, 'j) engine \<Rightarrow> string \<Rightarrow> string \<Rightarrow> int \<Rightarrow> int \<Rightarrow> 'k row list \<Rightarrow> 'k row list" where
  "UPSERT eng k v e vt [] = [\<lparr>key = affinity eng k, val = v, ttl = e, vtype = vt\<rparr>]"
| "UPSERT eng k v e vt (r # rs) =
     (if key r = affinity eng k then r\<lparr>val := v, ttl := e, vtype := vt\<rparr> # rs
      else r # UPSERT eng k v e vt rs)"

definition SELECT :: "('k, 'j) engine \<Rightarrow> string \<Rightarrow> int \<Rightarrow> 'k row list \<Rightarrow> 'k row list" where
  "SELECT eng k t rows = filter (\<lambda>r. key r = affinity eng k \<and> live t r) rows"

definition LIST ::
  "('k, 'j) engine \<Rightarrow> string \<Rightarrow> int \<Rightarrow> int \<Rightarrow> 'k row list \<Rightarrow> error + 'k row list" where
  "LIST eng pat t n rows =
     (if like_raises eng pat t rows then Inl SqlError
      else Inr (take (nat n)
             (list_order eng pat t
                (filter (\<lambda>r. like pat (text_of eng (key r)) \<and> live t r) rows))))"

definition DELETE :: "('k, 'j) engine \<Rightarrow> string \<Rightarrow> 'k row list \<Rightarrow> 'k row list" where
  "DELETE eng k rows = filter (\<lambda>r. key r \<noteq> affinity eng k) rows"

definition CLEAR :: "'k row list \<Rightarrow> 'k row list" where
  "CLEAR rows = []"

definition CLEANUP :: "int \<Rightarrow> 'k row list \<Rightarrow> 'k row list" where
  "CLEANUP t rows = filter (\<lambda>r. \<not> (ttl r > 0 \<and> ttl r < t)) rows"

text \<open>
  \<open>new Map(entries)\<close>: the entries in order, a repeated key keeping its first position and
  taking the later value.
\<close>

definition Map_new :: "('a \<times> 'v) list \<Rightarrow> ('a \<times> 'v) list" where
  "Map_new entries = fold (\<lambda>(k, v) m. AList.update k v m) entries []"

subsection \<open>The store and its operations\<close>

record 'k dokvs =
  sql :: "'k row list"
  interval :: int
  timing :: int

record KVListOptions =
  prefix :: "string option"
  limit :: "real option"

text \<open>The fields as the class initialises them, over the rows that the storage holds.\<close>

definition DOKVS_new :: "'k row list \<Rightarrow> 'k dokvs" where
  "DOKVS_new rows = \<lparr>sql = rows, interval = 86400, timing = 0\<rparr>"

definition cleanup :: "int \<Rightarrow> 'k dokvs \<Rightarrow> 'k dokvs" where
  "cleanup t s =
     (if timing s \<ge> t then s
      else s\<lparr>timing := js_add t (interval s), sql := CLEANUP t (sql s)\<rparr>)"

definition get ::
  "('k, 'j) engine \<Rightarrow> string \<Rightarrow> int \<Rightarrow> 'k dokvs \<Rightarrow> error + KVValue option" where
  "get eng k t s = (case SELECT eng k t (sql s) of [] \<Rightarrow> Inr None
     | r # _ \<Rightarrow> toUseValue (val r) (vtype r))"

definition put ::
  "('k, 'j) engine \<Rightarrow> string \<Rightarrow> KVValue \<Rightarrow> real option \<Rightarrow> int \<Rightarrow> 'k dokvs \<Rightarrow> 'k dokvs" where
  "put eng k v expiration t s =
     (let exp = Math_trunc (case expiration of None \<Rightarrow> 0 | Some e \<Rightarrow> e) in
      if exp \<noteq> 0 \<and> exp < t then s
      else (case toStoreValue v of (v', vt) \<Rightarrow>
              cleanup t (s\<lparr>sql := UPSERT eng k v' exp vt (sql s)\<rparr>)))"

definition delete :: "('k, 'j) engine \<Rightarrow> string \<Rightarrow> 'k dokvs \<Rightarrow> 'k dokvs" where
  "delete eng k s = s\<lparr>sql := DELETE eng k (sql s)\<rparr>"

definition clear :: "'k dokvs \<Rightarrow> 'k dokvs" where
  "clear s = s\<lparr>sql := CLEAR (sql s)\<rparr>"

definition list_prefix :: "KVListOptions option \<Rightarrow> string" where
  "list_prefix options =
     (let p = (case options of None \<Rightarrow> None | Some opts \<Rightarrow> prefix opts) in
      if p = Some ''%'' then ''%''
      else (case p of None \<Rightarrow> '''' | Some x \<Rightarrow> x) @ ''%'')"

definition list_limit :: "KVListOptions option \<Rightarrow> int" where
  "list_limit options =
     (let l = (case options of None \<Rightarrow> None | Some opts \<Rightarrow> limit opts) in
      Math_trunc (min (max (case l of None \<Rightarrow> 1000 | Some x \<Rightarrow> x) 1) 1000))"

definition list ::
  "('k, 'j) engine \<Rightarrow> KVListOptions option \<Rightarrow> bool option \<Rightarrow> int \<Rightarrow> 'k dokvs
     \<Rightarrow> error + ('j \<times> int) list" where
  "list eng options ignoreTtl t s =
     (case LIST eng (list_prefix options) (if truthy ignoreTtl then 0 else t)
             (list_limit options) (sql s) of
        Inl e \<Rightarrow> Inl e
      | Inr result \<Rightarrow> Inr (Map_new (map (\<lambda>r. (read_key eng (key r), ttl r)) result)))"

definition setCleanupInterval :: "real \<Rightarrow> bool option \<Rightarrow> int \<Rightarrow> 'k dokvs \<Rightarrow> 'k dokvs" where
  "setCleanupInterval i reset t s =
     (if i \<le> 0 then s
      else (let s' = s\<lparr>interval := Math_trunc i\<rparr> in
            if truthy reset then s'\<lparr>timing := js_add t (interval s')\<rparr> else s'))"

subsection \<open>Runs of the store\<close>

text \<open>
  One call of a public method, or the construction of a new instance over the persisted rows.
  Reading methods return their result through \<open>get\<close> and \<open>list\<close>; \<open>step\<close> is what a call does
  to the store.
\<close>

datatype operation =
    Get string
  | Put string KVValue "real option"
  | Delete string
  | Clear
  | List "KVListOptions option" "bool option"
  | SetCleanupInterval real "bool option"
  | Construct

fun step :: "('k, 'j) engine \<Rightarrow> operation \<Rightarrow> int \<Rightarrow> 'k dokvs \<Rightarrow> 'k dokvs" where
  "step eng (Get k) t s = s"
| "step eng (Put k v e) t s = put eng k v e t s"
| "step eng (Delete k) t s = delete eng k s"
| "step eng Clear t s = clear s"
| "step eng (List options ignoreTtl) t s = s"
| "step eng (SetCleanupInterval i reset) t s = setCleanupInterval i reset t s"
| "step eng Construct t s = DOKVS_new (sql s)"

inductive reachable :: "('k, 'j) engine \<Rightarrow> 'k dokvs \<Rightarrow> bool" for eng where
  fresh: "reachable eng (DOKVS_new [])"
| after: "reachable eng s \<Longrightarrow> 0 \<le> t \<Longrightarrow> reachable eng (step eng opn t s)"

text \<open>The properties of the table that every run keeps.\<close>

definition keys_unique :: "'k dokvs \<Rightarrow> bool" where
  "keys_unique s = distinct (map key (sql s))"

definition rows_ok :: "'k dokvs \<Rightarrow> bool" where
  "rows_ok s = (\<forall>r \<in> set (sql s). 0 \<le> ttl r \<and> (vtype r = 0 \<or> vtype r = 1))"

definition vals_encoded :: "'k dokvs \<Rightarrow> bool" where
  "vals_encoded s = (\<forall>r \<in> set (sql s). vtype r = 1 \<longrightarrow> (\<exists>b. val r = bin2str b))"

definition startsWith :: "string \<Rightarrow> string \<Rightarrow> bool" where
  "startsWith s p = (take (length p) s = p)"

definition is_upper :: "char \<Rightarrow> bool" where
  "is_upper c = (65 \<le> (of_char c :: nat) \<and> (of_char c :: nat) \<le> 90)"

definition is_letter :: "char \<Rightarrow> bool" where
  "is_letter c = (is_upper c \<or> (97 \<le> (of_char c :: nat) \<and> (of_char c :: nat) \<le> 122))"

definition no_letter :: "string \<Rightarrow> bool" where
  "no_letter s = (\<forall>c \<in> set s. \<not> is_letter c)"

definition no_upper :: "string \<Rightarrow> bool" where
  "no_upper s = (\<forall>c \<in> set s. \<not> is_upper c)"

text \<open>
  Modelled from the spec: the storage engine with the column types of the spec's section 6
  (\<open>key\<close> of type text), which holds, compares and returns a key as the text itself, delivers
  the rows of a listing in table order and bounds no pattern. It is the engine of the
  examples below, whose keys are not numerals and whose patterns are short.
\<close>

definition text_engine :: "(string, string) engine" where
  "text_engine = \<lparr>affinity = (\<lambda>k. k), text_of = (\<lambda>k. k), read_key = (\<lambda>k. k),
     list_order = (\<lambda>pat t rows. rows), like_raises = (\<lambda>pat t rows. False)\<rparr>"

subsection \<open>Schema bootstrap\<close>

text \<open>
  The storage as the bootstrap sees it: the key \<open>init\<close> of the key-value side, and whether
  the table and the index \<open>expindex\<close> exist. \<open>createTable\<close> is the sequence of its three
  storage calls; \<open>create table if not exists\<close> always succeeds, \<open>create index\<close> fails on a
  missing table or an existing index.
\<close>

record storage =
  kv_init :: "bool option"
  has_table :: bool
  has_index :: bool

datatype action = storage_put_init | exec_TABLE | exec_INDEX

fun perform :: "action \<Rightarrow> storage \<Rightarrow> error + storage" where
  "perform storage_put_init c = Inr (c\<lparr>kv_init := Some True\<rparr>)"
| "perform exec_TABLE c = Inr (c\<lparr>has_table := True\<rparr>)"
| "perform exec_INDEX c =
     (if \<not> has_table c \<or> has_index c then Inl SqlError else Inr (c\<lparr>has_index := True\<rparr>))"

fun run :: "action list \<Rightarrow> storage \<Rightarrow> error + storage" where
  "run [] c = Inr c"
| "run (a # as) c = (case perform a c of Inl e \<Rightarrow> Inl e | Inr c' \<Rightarrow> run as c')"

text \<open>The storage after each call of a sequence, up to the first failure.\<close>

fun trace :: "action list \<Rightarrow> storage \<Rightarrow> storage list" where
  "trace [] c = []"
| "trace (a # as) c = (case perform a c of Inl e \<Rightarrow> [] | Inr c' \<Rightarrow> c' # trace as c')"

definition isTable :: "storage \<Rightarrow> bool" where
  "isTable c = (case kv_init c of None \<Rightarrow> False | Some b \<Rightarrow> b)"

definition createTable :: "action list" where
  "createTable = [storage_put_init, exec_TABLE, exec_INDEX]"

definition initialize_calls :: "storage \<Rightarrow> action list" where
  "initialize_calls c = (if isTable c then [] else createTable)"

definition initialize :: "storage \<Rightarrow> error + storage" where
  "initialize c = run (initialize_calls c) c"

definition blank :: storage where
  "blank = \<lparr>kv_init = None, has_table = False, has_index = False\<rparr>"

definition ready :: storage where
  "ready = \<lparr>kv_init = Some True, has_table = True, has_index = True\<rparr>"

text \<open>
  The lifetime of a store. The constructor hands the bootstrap to
  \<open>ctx.blockConcurrencyWhile\<close>, which delivers no other event to the object until the
  bootstrap has finished: while calls of the bootstrap are \<open>pending\<close>, the only event is its
  next call. \<open>Construct_instance\<close> is the constructor (it reads the flag and, when the flag
  is unset, starts the creating sequence, which \<open>started\<close> counts), \<open>Bootstrap_call\<close> the next
  storage call of the bootstrap, \<open>Operation\<close> any call of a public method, \<open>Evict\<close> the end
  of an instance. An event that cannot take place, and a storage call that fails, give
  \<open>None\<close>.
\<close>

record lifetime =
  disk :: storage
  pending :: "action list"
  alive :: bool
  started :: nat

datatype event = Construct_instance | Bootstrap_call | Operation | Evict

fun fire :: "event \<Rightarrow> lifetime \<Rightarrow> lifetime option" where
  "fire Construct_instance w =
     (if alive w then None
      else Some (w\<lparr>alive := True, pending := initialize_calls (disk w),
                   started := started w + (if isTable (disk w) then 0 else 1)\<rparr>))"
| "fire Bootstrap_call w =
     (case pending w of [] \<Rightarrow> None
      | a # as \<Rightarrow> (case perform a (disk w) of Inl e \<Rightarrow> None
                   | Inr c \<Rightarrow> Some (w\<lparr>disk := c, pending := as\<rparr>)))"
| "fire Operation w = (if alive w \<and> pending w = [] then Some w else None)"
| "fire Evict w = (if alive w \<and> pending w = [] then Some (w\<lparr>alive := False\<rparr>) else None)"

definition unborn :: lifetime where
  "unborn = \<lparr>disk = blank, pending = [], alive = False, started = 0\<rparr>"

inductive lifetime_reaches :: "lifetime \<Rightarrow> bool" where
  start: "lifetime_reaches unborn"
| next_event: "lifetime_reaches w \<Longrightarrow> fire ev w = Some w' \<Longrightarrow> lifetime_reaches w'"

section \<open>Properties\<close>

subsection \<open>Sums of doubles\<close>

lemma js_add_exact: "\<bar>a + b\<bar> \<le> 2 ^ 53 \<Longrightarrow> js_add a b = a + b"
  by (simp add: js_add_def to_double_def)

text \<open>Beyond \<open>2^53\<close> the sum is rounded: \<open>101 + 2^53\<close> is a tie and goes to the even side.\<close>

lemma js_add_rounds: "js_add 101 9007199254740992 = 9007199254741092"
  by (simp add: js_add_def to_double_def Let_def ulp.simps [of 9007199254741093]
        ulp.simps [of 4503599627370546])

subsection \<open>The engine of the examples\<close>

lemma text_engine_simps:
  "affinity text_engine k = k" "text_of text_engine k = k" "read_key text_engine k = k"
  "list_order text_engine pat t rows = rows" "like_raises text_engine pat t rows = False"
  by (simp_all add: text_engine_def)

lemma engine_ok_text_engine: "engine_ok text_engine"
  by (simp add: engine_ok_def text_engine_simps)

subsection \<open>The codec on bytes\<close>

lemma of_char_hexdigit:
  "d < 16 \<Longrightarrow> (of_char (hexdigit d) :: nat) = (if d < 10 then 48 + d else 87 + d)"
  by (simp add: hexdigit_def)

lemma hexval_hexdigit: "d < 16 \<Longrightarrow> hexval (hexdigit d) = Some d"
  by (simp add: hexval_def of_char_hexdigit Let_def)

lemma byte_hex:
  assumes "n < 256"
  shows "padStart 2 (CHR ''0'') (toString16 n) = [hexdigit (n div 16), hexdigit (n mod 16)]"
proof (cases "n < 16")
  case True
  have "hexdigit 0 = CHR ''0''" by code_simp
  with True show ?thesis by (simp add: toString16.simps [of n] padStart_def)
next
  case False
  from assms have "n div 16 < 16" by simp
  with False show ?thesis
    by (simp add: toString16.simps [of n] toString16.simps [of "n div 16"] padStart_def)
qed

lemma hexdigit_neq:
  "d < 16 \<Longrightarrow> (of_char c :: nat) \<notin> {48..57} \<union> {97..102} \<Longrightarrow> hexdigit d \<noteq> c"
  using of_char_hexdigit [of d] by (auto split: if_splits)

lemma dot_hexdigit: "d < 16 \<Longrightarrow> dot_char (hexdigit d)"
  using of_char_hexdigit [of d] by (auto simp: dot_char_def split: if_splits)

lemma parseInt16_pair:
  assumes "a < 16" "b < 16"
  shows "parseInt16 [hexdigit a, hexdigit b] = Some (int (16 * a + b))"
proof -
  have sp: "\<not> is_space (hexdigit a)"
    using of_char_hexdigit [OF assms(1)] by (auto simp: is_space_def split: if_splits)
  have sg: "hexdigit a \<noteq> CHR ''-''" "hexdigit a \<noteq> CHR ''+''"
    using assms(1) by (rule hexdigit_neq; simp)+
  have px: "hexdigit b \<noteq> CHR ''x''" "hexdigit b \<noteq> CHR ''X''"
    using assms(2) by (rule hexdigit_neq; simp)+
  show ?thesis
    using assms sp sg px by (simp add: parseInt16_def hexval_hexdigit)
qed

lemma byte_roundtrip:
  "ToUint8 (parseInt16 (padStart 2 (CHR ''0'') (toString16 (unat (x :: 8 word))))) = x"
proof -
  have lt: "unat x < 256" using unsigned_less [of x] by simp
  then have d: "unat x div 16 < 16" "unat x mod 16 < 16" by simp_all
  show ?thesis
    by (simp add: byte_hex [OF lt] parseInt16_pair [OF d] ToUint8_def
          del: of_nat_add of_nat_mult)
qed

lemma match_pairs_concat:
  "\<forall>x \<in> set xs. \<exists>a b. x = [a, b] \<and> dot_char a \<and> dot_char b \<Longrightarrow>
     match_pairs (concat xs) = xs"
  by (induction xs) auto

text \<open>
  Encoding a buffer of at least one byte and decoding the text again gives the buffer back,
  whatever its bytes are.
\<close>

lemma str2bin_bin2str:
  assumes "bin \<noteq> []"
  shows "str2bin (bin2str bin) = Inr bin"
proof -
  let ?f = "\<lambda>x :: 8 word. padStart 2 (CHR ''0'') (toString16 (unat x))"
  have pairs: "\<forall>s \<in> set (map ?f bin). \<exists>a b. s = [a, b] \<and> dot_char a \<and> dot_char b"
  proof
    fix s assume "s \<in> set (map ?f bin)"
    then obtain x where s: "s = ?f x" by auto
    have lt: "unat x < 256" using unsigned_less [of x] by simp
    then have d: "unat x div 16 < 16" "unat x mod 16 < 16" by simp_all
    show "\<exists>a b. s = [a, b] \<and> dot_char a \<and> dot_char b"
      using byte_hex [OF lt] dot_hexdigit [OF d(1)] dot_hexdigit [OF d(2)] s by simp
  qed
  have m: "match_pairs (bin2str bin) = map ?f bin"
    unfolding bin2str_def by (rule match_pairs_concat [OF pairs])
  from assms obtain y ys where "map ?f bin = y # ys" by (cases bin) auto
  with m have "str_match (bin2str bin) = Some (map ?f bin)"
    by (simp add: str_match_def)
  then show ?thesis
    by (simp add: str2bin_def byte_roundtrip o_def map_idI)
qed

text \<open>
  Claim C2 (binary round trip, the zero-length buffer included). The buffer of no bytes is
  encoded as the empty text, in which \<open>match\<close> finds no group: \<open>str2bin\<close> throws instead of
  returning the empty buffer, and so does \<open>get\<close> on a key that was \<open>put\<close> with it, on every
  engine.
\<close>

theorem empty_buffer_roundtrip_throws:
  "bin2str [] = '''' \<and> str2bin (bin2str []) = Inl TypeError \<and>
   get eng ''x'' 100 (put eng ''x'' (Buf []) None 100 (DOKVS_new [])) = Inl TypeError"
  by (simp add: bin2str_def str2bin_def str_match_def get_def put_def Math_trunc_def
        toStoreValue_def toUseValue_def cleanup_def DOKVS_new_def SELECT_def CLEANUP_def
        live_def VTYPE_string_def VTYPE_buffer_def)

subsection \<open>What every run keeps\<close>

lemma UPSERT_map_key:
  "map key (UPSERT eng k v e vt rows) =
     (if affinity eng k \<in> set (map key rows) then map key rows
      else map key rows @ [affinity eng k])"
  by (induction rows) auto

text \<open>
  Two texts that the engine holds as the same key are the same key to every statement: what
  is written under one is read, replaced and deleted under the other.
\<close>

lemma UPSERT_same_key:
  "affinity eng k = affinity eng k' \<Longrightarrow> UPSERT eng k v e vt rows = UPSERT eng k' v e vt rows"
  by (induction rows) auto

lemma same_stored_key:
  assumes "affinity eng k = affinity eng k'"
  shows "get eng k t s = get eng k' t s \<and> put eng k v e t s = put eng k' v e t s \<and>
         delete eng k s = delete eng k' s"
proof -
  have "put eng k v e t s = put eng k' v e t s"
    unfolding put_def by (subst UPSERT_same_key [OF assms]) (rule refl)
  with assms show ?thesis
    by (simp add: get_def SELECT_def delete_def DELETE_def)
qed

lemma distinct_UPSERT:
  "distinct (map key rows) \<Longrightarrow> distinct (map key (UPSERT eng k v e vt rows))"
  by (simp add: UPSERT_map_key)

lemma length_UPSERT:
  "length (UPSERT eng k v e vt rows) =
     (if affinity eng k \<in> set (map key rows) then length rows else Suc (length rows))"
  using arg_cong [OF UPSERT_map_key, of length eng k v e vt rows] by (simp split: if_splits)

lemma UPSERT_set:
  "r \<in> set (UPSERT eng k v e vt rows) \<Longrightarrow>
     r \<in> set rows \<or> (key r = affinity eng k \<and> val r = v \<and> ttl r = e \<and> vtype r = vt)"
  by (induction rows) (auto split: if_splits)

lemma filter_key_head:
  assumes "distinct (map key (r # rows))"
  shows "filter (\<lambda>x. key x = key r) rows = []"
proof -
  from assms have "key r \<notin> key ` set rows" by simp
  then have "\<And>x. x \<in> set rows \<Longrightarrow> key x \<noteq> key r" by (metis imageI)
  then show ?thesis by (simp add: filter_empty_conv)
qed

lemma filter_key_UPSERT:
  "distinct (map key rows) \<Longrightarrow>
     filter (\<lambda>r. key r = affinity eng k) (UPSERT eng k v e vt rows)
       = [\<lparr>key = affinity eng k, val = v, ttl = e, vtype = vt\<rparr>]"
proof (induction rows)
  case Nil
  then show ?case by simp
next
  case (Cons r rows)
  show ?case
  proof (cases "key r = affinity eng k")
    case True
    with filter_key_head [OF Cons.prems] show ?thesis by simp
  next
    case False
    with Cons show ?thesis by simp
  qed
qed

text \<open>The upsert leaves the rows of every other key as they are, in their order.\<close>

lemma filter_other_UPSERT:
  "filter (\<lambda>r. key r \<noteq> affinity eng k) (UPSERT eng k v e vt rows)
     = filter (\<lambda>r. key r \<noteq> affinity eng k) rows"
  by (induction rows) auto

lemma filter_key_le_one:
  "distinct (map key rows) \<Longrightarrow> length (filter (\<lambda>r. key r = x) rows) \<le> 1"
proof (induction rows)
  case Nil
  then show ?case by simp
next
  case (Cons r rows)
  show ?case
  proof (cases "key r = x")
    case True
    with filter_key_head [OF Cons.prems] show ?thesis by simp
  next
    case False
    with Cons show ?thesis by simp
  qed
qed

lemma distinct_cleanup:
  "distinct (map key (sql s)) \<Longrightarrow> distinct (map key (sql (cleanup t s)))"
  by (simp add: cleanup_def CLEANUP_def distinct_map_filter)

lemma sql_cleanup_subset: "set (sql (cleanup t s)) \<subseteq> set (sql s)"
  by (auto simp: cleanup_def CLEANUP_def)

lemma toStoreValue_vtype: "toStoreValue v = (v', vt) \<Longrightarrow> vt = 0 \<or> vt = 1"
  by (auto simp: toStoreValue_def VTYPE_string_def VTYPE_buffer_def split: KVValue.splits)

lemma toStoreValue_encoded: "toStoreValue v = (v', 1) \<Longrightarrow> \<exists>b. v' = bin2str b"
  by (auto simp: toStoreValue_def VTYPE_string_def VTYPE_buffer_def split: KVValue.splits)

lemma step_keys_unique: "keys_unique s \<Longrightarrow> keys_unique (step eng opn t s)"
proof (cases opn)
  case (Put k v e)
  assume "keys_unique s"
  then show ?thesis
    unfolding Put keys_unique_def
    by (auto simp: put_def Let_def distinct_cleanup distinct_UPSERT split: prod.splits)
qed (auto simp: keys_unique_def delete_def DELETE_def clear_def CLEAR_def
      setCleanupInterval_def DOKVS_new_def Let_def distinct_map_filter)

lemma reachable_keys_unique: "reachable eng s \<Longrightarrow> keys_unique s"
proof (induction rule: reachable.induct)
  case fresh
  show ?case by (simp add: keys_unique_def DOKVS_new_def)
next
  case (after s t opn)
  then show ?case by (simp add: step_keys_unique)
qed

lemma put_rows_ok:
  assumes "rows_ok s" "0 \<le> t"
  shows "rows_ok (put eng k v e t s)"
proof -
  define x where "x = Math_trunc (case e of None \<Rightarrow> 0 | Some y \<Rightarrow> y)"
  show ?thesis
  proof (cases "x \<noteq> 0 \<and> x < t")
    case True
    then show ?thesis using assms by (simp add: put_def x_def)
  next
    case False
    with assms(2) have x0: "0 \<le> x" by auto
    obtain v' vt where sv: "toStoreValue v = (v', vt)" by (cases "toStoreValue v")
    have "rows_ok (s\<lparr>sql := UPSERT eng k v' x vt (sql s)\<rparr>)"
      using assms(1) x0 toStoreValue_vtype [OF sv]
      by (auto simp: rows_ok_def dest!: UPSERT_set)
    then have "rows_ok (cleanup t (s\<lparr>sql := UPSERT eng k v' x vt (sql s)\<rparr>))"
      using sql_cleanup_subset unfolding rows_ok_def by blast
    with False sv show ?thesis by (auto simp: put_def x_def [symmetric])
  qed
qed

lemma step_rows_ok: "rows_ok s \<Longrightarrow> 0 \<le> t \<Longrightarrow> rows_ok (step eng opn t s)"
proof (cases opn)
  case (Put k v e)
  assume "rows_ok s" "0 \<le> t"
  then show ?thesis unfolding Put by (simp add: put_rows_ok)
qed (auto simp: rows_ok_def delete_def DELETE_def clear_def CLEAR_def
      setCleanupInterval_def DOKVS_new_def Let_def)

lemma reachable_rows_ok: "reachable eng s \<Longrightarrow> rows_ok s"
proof (induction rule: reachable.induct)
  case fresh
  show ?case by (simp add: rows_ok_def DOKVS_new_def)
next
  case (after s t opn)
  then show ?case by (simp add: step_rows_ok)
qed

lemma put_vals_encoded:
  assumes "vals_encoded s"
  shows "vals_encoded (put eng k v e t s)"
proof -
  define x where "x = Math_trunc (case e of None \<Rightarrow> 0 | Some y \<Rightarrow> y)"
  obtain v' vt where sv: "toStoreValue v = (v', vt)" by (cases "toStoreValue v")
  have "vals_encoded (s\<lparr>sql := UPSERT eng k v' x vt (sql s)\<rparr>)"
    using assms toStoreValue_encoded [of v v'] sv
    by (auto simp: vals_encoded_def dest!: UPSERT_set)
  then have "vals_encoded (cleanup t (s\<lparr>sql := UPSERT eng k v' x vt (sql s)\<rparr>))"
    using sql_cleanup_subset unfolding vals_encoded_def by blast
  with assms sv show ?thesis by (auto simp: put_def x_def [symmetric])
qed

lemma step_vals_encoded: "vals_encoded s \<Longrightarrow> vals_encoded (step eng opn t s)"
proof (cases opn)
  case (Put k v e)
  assume "vals_encoded s"
  then show ?thesis unfolding Put by (simp add: put_vals_encoded)
qed (auto simp: vals_encoded_def delete_def DELETE_def clear_def CLEAR_def
      setCleanupInterval_def DOKVS_new_def Let_def)

lemma reachable_vals_encoded: "reachable eng s \<Longrightarrow> vals_encoded s"
proof (induction rule: reachable.induct)
  case fresh
  show ?case by (simp add: vals_encoded_def DOKVS_new_def)
next
  case (after s t opn)
  then show ?case by (simp add: step_vals_encoded)
qed

subsection \<open>Reading a key\<close>

lemma SELECT_find:
  "distinct (map key rows) \<Longrightarrow>
     SELECT eng k t rows = (case find (\<lambda>r. key r = affinity eng k) rows of None \<Rightarrow> []
       | Some r \<Rightarrow> if live t r then [r] else [])"
proof (induction rows)
  case Nil
  then show ?case by (simp add: SELECT_def)
next
  case (Cons r rows)
  show ?case
  proof (cases "key r = affinity eng k")
    case True
    have "filter (\<lambda>x. key x = affinity eng k \<and> live t x) rows
            = filter (live t) (filter (\<lambda>x. key x = key r) rows)"
      using True by (simp add: conj_commute)
    also have "\<dots> = []" by (simp only: filter_key_head [OF Cons.prems] filter.simps)
    finally show ?thesis using True by (simp add: SELECT_def)
  next
    case False
    with Cons show ?thesis by (simp add: SELECT_def)
  qed
qed

lemma find_filter_single: "filter P xs = [r] \<Longrightarrow> find P xs = Some r"
  by (induction xs) (auto split: if_splits)

lemma SELECT_put:
  assumes "keys_unique s" "x = Math_trunc (case e of None \<Rightarrow> 0 | Some y \<Rightarrow> y)"
    and "x = 0 \<or> t \<le> x"
  shows "filter (\<lambda>r. key r = affinity eng k) (sql (put eng k v e t s)) =
           [\<lparr>key = affinity eng k, val = fst (toStoreValue v), ttl = x,
             vtype = snd (toStoreValue v)\<rparr>]"
proof -
  obtain v' vt where sv: "toStoreValue v = (v', vt)" by (cases "toStoreValue v")
  let ?up = "UPSERT eng k v' x vt (sql s)"
  let ?row = "\<lparr>key = affinity eng k, val = v', ttl = x, vtype = vt\<rparr>"
  have up: "filter (\<lambda>r. key r = affinity eng k) ?up = [?row]"
    using assms(1) by (simp add: keys_unique_def filter_key_UPSERT)
  have "filter (\<lambda>r. key r = affinity eng k) (CLEANUP t ?up)
          = CLEANUP t (filter (\<lambda>r. key r = affinity eng k) ?up)"
    by (simp add: CLEANUP_def conj_commute)
  also have "\<dots> = [?row]"
    using assms(3) by (auto simp: up CLEANUP_def)
  finally have "filter (\<lambda>r. key r = affinity eng k) (sql (cleanup t (s\<lparr>sql := ?up\<rparr>)))
                  = [?row]"
    using up by (simp add: cleanup_def)
  with assms(2,3) sv show ?thesis by (auto simp: put_def)
qed

text \<open>A \<open>put\<close> leaves the rows of every other key to the sweep alone.\<close>

lemma other_rows_put:
  "filter (\<lambda>r. key r \<noteq> affinity eng k) (sql (put eng k v e t s))
     = filter (\<lambda>r. key r \<noteq> affinity eng k)
         (sql (if Math_trunc (case e of None \<Rightarrow> 0 | Some y \<Rightarrow> y) \<noteq> 0 \<and>
                  Math_trunc (case e of None \<Rightarrow> 0 | Some y \<Rightarrow> y) < t
               then s else cleanup t s))"
proof -
  obtain v' vt where sv: "toStoreValue v = (v', vt)" by (cases "toStoreValue v")
  have "filter (\<lambda>r. key r \<noteq> affinity eng k) (CLEANUP t (UPSERT eng k v' x vt (sql s)))
          = filter (\<lambda>r. key r \<noteq> affinity eng k) (CLEANUP t (sql s))" for x
  proof -
    have "filter (\<lambda>r. key r \<noteq> affinity eng k) (CLEANUP t (UPSERT eng k v' x vt (sql s)))
            = CLEANUP t (filter (\<lambda>r. key r \<noteq> affinity eng k) (UPSERT eng k v' x vt (sql s)))"
      by (simp add: CLEANUP_def conj_commute)
    also have "\<dots> = CLEANUP t (filter (\<lambda>r. key r \<noteq> affinity eng k) (sql s))"
      by (simp only: filter_other_UPSERT)
    also have "\<dots> = filter (\<lambda>r. key r \<noteq> affinity eng k) (CLEANUP t (sql s))"
      by (simp add: CLEANUP_def conj_commute)
    finally show ?thesis .
  qed
  then show ?thesis
    using sv by (simp add: put_def cleanup_def filter_other_UPSERT)
qed

lemma get_put:
  assumes "keys_unique s" "x = Math_trunc (case e of None \<Rightarrow> 0 | Some y \<Rightarrow> y)"
    and "x = 0 \<or> t \<le> x" and "x = 0 \<or> t' \<le> x"
  shows "get eng k t' (put eng k v e t s)
           = toUseValue (fst (toStoreValue v)) (snd (toStoreValue v))"
proof -
  have "SELECT eng k t' (sql (put eng k v e t s))
          = filter (live t') (filter (\<lambda>r. key r = affinity eng k) (sql (put eng k v e t s)))"
    by (simp add: SELECT_def conj_commute)
  also have "\<dots> = [\<lparr>key = affinity eng k, val = fst (toStoreValue v), ttl = x,
                       vtype = snd (toStoreValue v)\<rparr>]"
    using assms(4) by (auto simp: SELECT_put [OF assms(1,2,3)] live_def)
  finally show ?thesis by (simp add: get_def)
qed

text \<open>
  A string, or a buffer of at least one byte, that was accepted by \<open>put\<close> is what \<open>get\<close>
  returns for the key as long as the entry is live.
\<close>

lemma toUseValue_toStoreValue:
  assumes "v \<noteq> Buf []"
  shows "toUseValue (fst (toStoreValue v)) (snd (toStoreValue v)) = Inr (Some v)"
proof (cases v)
  case (Str x)
  then show ?thesis by (simp add: toStoreValue_def toUseValue_def)
next
  case (Buf b)
  with assms have "b \<noteq> []" by simp
  then show ?thesis
    using Buf
    by (simp add: toStoreValue_def toUseValue_def VTYPE_string_def VTYPE_buffer_def
          str2bin_bin2str)
qed

lemma get_put_value:
  assumes "keys_unique s" "x = Math_trunc (case e of None \<Rightarrow> 0 | Some y \<Rightarrow> y)"
    and "x = 0 \<or> t \<le> x" and "x = 0 \<or> t' \<le> x" and "v \<noteq> Buf []"
  shows "get eng k t' (put eng k v e t s) = Inr (Some v)"
  using get_put [OF assms(1-4), of eng k v] toUseValue_toStoreValue [OF assms(5)] by simp

lemma length_put_present:
  assumes "affinity eng k \<in> set (map key (sql s))"
  shows "length (sql (put eng k v e t s)) \<le> length (sql s)"
proof -
  define x where "x = Math_trunc (case e of None \<Rightarrow> 0 | Some y \<Rightarrow> y)"
  obtain v' vt where sv: "toStoreValue v = (v', vt)" by (cases "toStoreValue v")
  let ?s' = "s\<lparr>sql := UPSERT eng k v' x vt (sql s)\<rparr>"
  have "length (sql (cleanup t ?s')) \<le> length (sql ?s')"
    by (simp add: cleanup_def CLEANUP_def)
  also have "\<dots> = length (sql s)"
    using assms by (simp add: length_UPSERT)
  finally show ?thesis
    using sv by (simp add: put_def x_def [symmetric])
qed

text \<open>
  What \<open>get\<close> returns in a store that a run has reached: the decoding of the one row of the
  key when that row is live, and \<open>undefined\<close> when there is no row of the key or it is
  expired.
\<close>

lemma get_find:
  assumes "reachable eng s"
  shows "get eng k t s =
           (case find (\<lambda>r. key r = affinity eng k) (sql s) of None \<Rightarrow> Inr None
            | Some r \<Rightarrow> if ttl r = 0 \<or> t \<le> ttl r then toUseValue (val r) (vtype r)
                        else Inr None)"
proof -
  from assms have "distinct (map key (sql s))"
    using reachable_keys_unique by (simp add: keys_unique_def)
  then show ?thesis
    by (simp add: get_def SELECT_find live_def split: option.splits)
qed

lemma bin2str_empty: "bin2str b = [] \<longleftrightarrow> b = []"
  by (cases b) (simp_all add: bin2str_def padStart_def)

text \<open>
  The decoding of a live row gives back the value that was stored (the value whose encoding
  the row holds), except for the row of a buffer of no bytes, on which it throws.
\<close>

lemma get_live_value:
  assumes "reachable eng s" "find (\<lambda>r. key r = affinity eng k) (sql s) = Some r"
    and "ttl r = 0 \<or> t \<le> ttl r"
  shows "if vtype r = 1 \<and> val r = '''' then get eng k t s = Inl TypeError
         else (\<exists>v. get eng k t s = Inr (Some v) \<and> toStoreValue v = (val r, vtype r))"
proof -
  from assms(2) have mem: "r \<in> set (sql s)"
    by (auto simp: find_Some_iff in_set_conv_nth)
  have g: "get eng k t s = toUseValue (val r) (vtype r)"
    using get_find [OF assms(1), of k t] assms(2,3) by simp
  from reachable_rows_ok [OF assms(1)] mem have vt: "vtype r = 0 \<or> vtype r = 1"
    by (simp add: rows_ok_def)
  show ?thesis
  proof (cases "vtype r = 1")
    case False
    with vt have "vtype r = 0" by simp
    then have "get eng k t s = Inr (Some (Str (val r))) \<and>
               toStoreValue (Str (val r)) = (val r, vtype r)"
      by (simp add: g toUseValue_def toStoreValue_def VTYPE_string_def)
    with False show ?thesis by auto
  next
    case True
    with reachable_vals_encoded [OF assms(1)] mem obtain b where b: "val r = bin2str b"
      by (auto simp: vals_encoded_def)
    show ?thesis
    proof (cases "b = []")
      case True
      with b \<open>vtype r = 1\<close> show ?thesis
        by (simp add: g toUseValue_def VTYPE_string_def VTYPE_buffer_def bin2str_def
              str2bin_def str_match_def)
    next
      case False
      then have "get eng k t s = Inr (Some (Buf b)) \<and> toStoreValue (Buf b) = (val r, vtype r)"
        using b \<open>vtype r = 1\<close>
        by (simp add: g toUseValue_def toStoreValue_def VTYPE_string_def VTYPE_buffer_def
              str2bin_bin2str)
      moreover from False b have "val r \<noteq> ''''" by (simp add: bin2str_empty)
      ultimately show ?thesis by auto
    qed
  qed
qed

text \<open>
  Claim C1. The row written for a buffer of no bytes is live (its \<open>ttl\<close> is 0 or lies at or
  after the time of the read) and is the one row of its key, in a store that a run has
  reached; \<open>get\<close> does not return its value, the buffer of no bytes, but throws. The cause is
  the decoding of the empty text, as for claim C2.
\<close>

theorem get_live_empty_buffer_throws:
  assumes "reachable eng s" "0 \<le> t"
    and "x = Math_trunc (case e of None \<Rightarrow> 0 | Some y \<Rightarrow> y)"
    and "x = 0 \<or> t \<le> x" and "x = 0 \<or> t' \<le> x"
  shows "reachable eng (put eng k (Buf []) e t s) \<and>
         find (\<lambda>r. key r = affinity eng k) (sql (put eng k (Buf []) e t s))
           = Some \<lparr>key = affinity eng k, val = '''', ttl = x, vtype = 1\<rparr> \<and>
         get eng k t' (put eng k (Buf []) e t s) = Inl TypeError"
proof -
  have r: "reachable eng (put eng k (Buf []) e t s)"
    using reachable.after [OF assms(1,2), of "Put k (Buf []) e"] by simp
  have ku: "keys_unique s" using assms(1) by (rule reachable_keys_unique)
  have sv: "toStoreValue (Buf []) = ('''', 1)"
    by (simp add: toStoreValue_def bin2str_def VTYPE_buffer_def)
  have f: "find (\<lambda>r. key r = affinity eng k) (sql (put eng k (Buf []) e t s))
             = Some \<lparr>key = affinity eng k, val = '''', ttl = x, vtype = 1\<rparr>"
    using SELECT_put [OF ku assms(3,4), of eng k "Buf []"]
    by (simp add: sv find_filter_single)
  have "get eng k t' (put eng k (Buf []) e t s) = Inl TypeError"
    using get_put [OF ku assms(3,4,5), of eng k "Buf []"]
    by (simp add: sv toUseValue_def VTYPE_string_def VTYPE_buffer_def str2bin_def
          str_match_def)
  with r f show ?thesis by simp
qed

theorem get_live_empty_buffer_throws_witness:
  "reachable text_engine (put text_engine ''img'' (Buf []) (Some 500) 100 (DOKVS_new [])) \<and>
   find (\<lambda>r. key r = ''img'')
     (sql (put text_engine ''img'' (Buf []) (Some 500) 100 (DOKVS_new [])))
     = Some \<lparr>key = ''img'', val = '''', ttl = 500, vtype = 1\<rparr> \<and>
   get text_engine ''img'' 200 (put text_engine ''img'' (Buf []) (Some 500) 100 (DOKVS_new []))
     = Inl TypeError"
proof -
  have x: "(500 :: int) = Math_trunc (case Some 500 of None \<Rightarrow> 0 | Some y \<Rightarrow> y)"
    by (simp add: Math_trunc_def)
  show ?thesis
    using get_live_empty_buffer_throws [OF reachable.fresh _ x, of 100 200 text_engine "''img''"]
    by (simp add: text_engine_simps)
qed

subsection \<open>One row for each key\<close>

text \<open>
  Claim C4. A store that a run has reached holds at most one row for each key. A \<open>put\<close> that
  is accepted (its truncated expiration is 0 or not before \<open>t\<close>) leaves exactly one row for
  its key, carrying the new value, expiry and kind; it adds no row when the key was there,
  and the rows of the other keys are the ones that the sweep leaves of them, unchanged.
  After \<open>put("a", "1")\<close> and \<open>put("a", "2")\<close>, \<open>get("a")\<close> returns \<open>"2"\<close>.
\<close>

theorem one_row_per_key:
  assumes "reachable eng s"
  shows "length (filter (\<lambda>r. key r = x) (sql s)) \<le> 1 \<and>
    (Math_trunc (case e of None \<Rightarrow> 0 | Some y \<Rightarrow> y) = 0 \<or>
     t \<le> Math_trunc (case e of None \<Rightarrow> 0 | Some y \<Rightarrow> y) \<longrightarrow>
       filter (\<lambda>r. key r = affinity eng k) (sql (put eng k v e t s)) =
         [\<lparr>key = affinity eng k, val = fst (toStoreValue v),
           ttl = Math_trunc (case e of None \<Rightarrow> 0 | Some y \<Rightarrow> y),
           vtype = snd (toStoreValue v)\<rparr>] \<and>
       filter (\<lambda>r. key r \<noteq> affinity eng k) (sql (put eng k v e t s)) =
         filter (\<lambda>r. key r \<noteq> affinity eng k) (sql (cleanup t s)) \<and>
       (affinity eng k \<in> set (map key (sql s)) \<longrightarrow>
          length (sql (put eng k v e t s)) \<le> length (sql s))) \<and>
    get eng ''a'' t3 (put eng ''a'' (Str ''2'') None t2 (put eng ''a'' (Str ''1'') None t1 s))
      = Inr (Some (Str ''2''))"
proof -
  from assms have ku: "keys_unique s" by (rule reachable_keys_unique)
  have one: "length (filter (\<lambda>r. key r = x) (sql s)) \<le> 1"
    by (rule filter_key_le_one) (use ku in \<open>simp add: keys_unique_def\<close>)
  define X where "X = Math_trunc (case e of None \<Rightarrow> 0 | Some y \<Rightarrow> y)"
  have len: "length (sql (put eng k v e t s)) \<le> length (sql s)"
    if "affinity eng k \<in> set (map key (sql s))"
    using that by (rule length_put_present)
  have frame: "filter (\<lambda>r. key r \<noteq> affinity eng k) (sql (put eng k v e t s)) =
         filter (\<lambda>r. key r \<noteq> affinity eng k) (sql (cleanup t s))"
    if "X = 0 \<or> t \<le> X"
    using that other_rows_put [of eng k v e t s] unfolding X_def by auto
  have ku1: "keys_unique (put eng ''a'' (Str ''1'') None t1 s)"
    using step_keys_unique [OF ku, of eng "Put ''a'' (Str ''1'') None" t1] by simp
  have scen: "get eng ''a'' t3 (put eng ''a'' (Str ''2'') None t2
                 (put eng ''a'' (Str ''1'') None t1 s)) = Inr (Some (Str ''2''))"
    using get_put [OF ku1, of 0 None t2 t3 eng "''a''" "Str ''2''"]
    by (simp add: Math_trunc_def toStoreValue_def toUseValue_def)
  show ?thesis
    using one len frame scen SELECT_put [OF ku X_def, of t eng k v]
    unfolding X_def by blast
qed

theorem one_row_per_key_witness:
  "sql (put text_engine ''a'' (Str ''1'') None 100
      (put text_engine ''b'' (Str ''0'') (Some 500) 100 (DOKVS_new [])))
     = [\<lparr>key = ''b'', val = ''0'', ttl = 500, vtype = 0\<rparr>,
        \<lparr>key = ''a'', val = ''1'', ttl = 0, vtype = 0\<rparr>] \<and>
   filter (\<lambda>r. key r = ''a'')
      (sql (put text_engine ''a'' (Str ''2'') None 200
         (put text_engine ''a'' (Str ''1'') None 100
            (put text_engine ''b'' (Str ''0'') (Some 500) 100 (DOKVS_new [])))))
     = [\<lparr>key = ''a'', val = ''2'', ttl = 0, vtype = 0\<rparr>] \<and>
   filter (\<lambda>r. key r \<noteq> ''a'')
      (sql (put text_engine ''a'' (Str ''2'') None 200
         (put text_engine ''a'' (Str ''1'') None 100
            (put text_engine ''b'' (Str ''0'') (Some 500) 100 (DOKVS_new [])))))
     = [\<lparr>key = ''b'', val = ''0'', ttl = 500, vtype = 0\<rparr>] \<and>
   length (sql (put text_engine ''a'' (Str ''2'') None 200
         (put text_engine ''a'' (Str ''1'') None 100
            (put text_engine ''b'' (Str ''0'') (Some 500) 100 (DOKVS_new []))))) \<le> 2"
proof -
  let ?s0 = "put text_engine ''b'' (Str ''0'') (Some 500) 100 (DOKVS_new [])"
  let ?s = "put text_engine ''a'' (Str ''1'') None 100 ?s0"
  have "reachable text_engine (step text_engine (Put ''a'' (Str ''1'') None) 100
          (step text_engine (Put ''b'' (Str ''0'') (Some 500)) 100 (DOKVS_new [])))"
    by (intro reachable.intros) simp_all
  then have r: "reachable text_engine ?s" by simp
  have s: "?s = \<lparr>sql = [\<lparr>key = ''b'', val = ''0'', ttl = 500, vtype = 0\<rparr>,
                         \<lparr>key = ''a'', val = ''1'', ttl = 0, vtype = 0\<rparr>],
                  interval = 86400, timing = 86500\<rparr>"
    by (simp add: put_def Math_trunc_def toStoreValue_def cleanup_def DOKVS_new_def
          CLEANUP_def VTYPE_string_def text_engine_simps js_add_exact)
  show ?thesis
    using one_row_per_key [OF r, of "''a''" None 200 "''a''" "Str ''2''" 0 0 0]
    by (simp add: s Math_trunc_def toStoreValue_def VTYPE_string_def text_engine_simps
          cleanup_def)
qed

subsection \<open>Writing an expired entry\<close>

text \<open>
  Claim C3. For a requested expiration that is a whole number of seconds, not 0, and lies
  before \<open>t\<close>, \<open>put\<close> changes nothing and raises nothing. (\<open>put\<close> truncates the requested
  expiration before it looks at it, and the same holds whenever the truncated expiration is
  not 0 and lies before \<open>t\<close>.)
\<close>

theorem put_expired_is_noop:
  "(n \<noteq> 0 \<and> n < t \<longrightarrow> put eng k v (Some (real_of_int n)) t s = s) \<and>
   (Math_trunc e \<noteq> 0 \<and> Math_trunc e < t \<longrightarrow> put eng k v (Some e) t s = s)"
  by (simp add: put_def Math_trunc_def)

theorem put_expired_is_noop_witness:
  "put text_engine ''k'' (Str ''v'') (Some (real_of_int 50)) 100 (DOKVS_new []) = DOKVS_new [] \<and>
   put text_engine ''k'' (Str ''v'') (Some (101 / 2)) 100 (DOKVS_new []) = DOKVS_new []"
proof -
  have "Math_trunc (101 / 2) = 50" by (simp add: Math_trunc_def)
  then show ?thesis
    using put_expired_is_noop [of 50 100 text_engine "''k''" "Str ''v''" "DOKVS_new []" "101 / 2"]
    by simp
qed

subsection \<open>The throttled sweep\<close>

text \<open>
  Claim C6, as the code has it. When \<open>cleanup\<close> runs at time \<open>t\<close>, the sweep executes exactly
  when \<open>t\<close> is strictly after \<open>timing\<close>: then \<open>timing\<close> becomes the sum of \<open>t\<close> and the interval
  as JavaScript adds them, which is \<open>t + interval\<close> as long as that is at most \<open>2^53\<close> in
  magnitude, and exactly the rows with \<open>0 < ttl < t\<close> are deleted; when \<open>t \<le> timing\<close> the store
  is unchanged. A new instance has the interval 86400.
\<close>

theorem cleanup_throttle:
  "(timing s < t \<longrightarrow>
      timing (cleanup t s) = js_add t (interval s) \<and>
      (\<bar>t + interval s\<bar> \<le> 2 ^ 53 \<longrightarrow> timing (cleanup t s) = t + interval s) \<and>
      interval (cleanup t s) = interval s \<and>
      sql (cleanup t s) = filter (\<lambda>r. \<not> (0 < ttl r \<and> ttl r < t)) (sql s)) \<and>
   (t \<le> timing s \<longrightarrow> cleanup t s = s) \<and>
   interval (DOKVS_new rows) = 86400"
  by (simp add: cleanup_def CLEANUP_def DOKVS_new_def js_add_exact)

theorem cleanup_throttle_witness:
  "cleanup 101 \<lparr>sql = [\<lparr>key = ''k'', val = ''v'', ttl = 60, vtype = 0\<rparr>,
                        \<lparr>key = ''f'', val = ''v'', ttl = 0, vtype = 0\<rparr>],
                 interval = 50, timing = 100\<rparr>
     = \<lparr>sql = [\<lparr>key = ''f'', val = ''v'', ttl = 0, vtype = 0\<rparr>], interval = 50, timing = 151\<rparr> \<and>
   cleanup 99 \<lparr>sql = [\<lparr>key = ''k'', val = ''v'', ttl = 60, vtype = 0\<rparr>],
                interval = 50, timing = 100\<rparr>
     = \<lparr>sql = [\<lparr>key = ''k'', val = ''v'', ttl = 60, vtype = 0\<rparr>], interval = 50, timing = 100\<rparr>"
  using cleanup_throttle [of "\<lparr>sql = [\<lparr>key = ''k'', val = ''v'', ttl = 60, vtype = 0\<rparr>,
                        \<lparr>key = ''f'', val = ''v'', ttl = 0, vtype = 0\<rparr>],
                 interval = 50, timing = 100\<rparr>" 101 "[] :: string row list"]
    cleanup_throttle [of "\<lparr>sql = [\<lparr>key = ''k'', val = ''v'', ttl = 60, vtype = 0\<rparr>],
                interval = 50, timing = 100\<rparr>" 99 "[] :: string row list"]
  by (simp add: dokvs.equality)

text \<open>
  Claim C6 as worded: with \<open>now \<ge> next_sweep_time\<close> as the condition, the sweep would run
  at \<open>t = timing\<close>. It does not: after \<open>put("k", "v", 60)\<close> at time 10 and
  \<open>setCleanupInterval(50, true)\<close> at time 50, \<open>timing\<close> is 100, and \<open>cleanup\<close> at time 100
  leaves the row of \<open>ttl\<close> 60 and \<open>timing\<close> alone.
\<close>

theorem cleanup_at_timing_counterexample:
  "timing (setCleanupInterval 50 (Some True) 50
      (put text_engine ''k'' (Str ''v'') (Some 60) 10 (DOKVS_new []))) = 100 \<and>
   cleanup 100 (setCleanupInterval 50 (Some True) 50
      (put text_engine ''k'' (Str ''v'') (Some 60) 10 (DOKVS_new [])))
     = \<lparr>sql = [\<lparr>key = ''k'', val = ''v'', ttl = 60, vtype = 0\<rparr>], interval = 50, timing = 100\<rparr>"
  by (simp add: put_def Math_trunc_def toStoreValue_def cleanup_def DOKVS_new_def
        CLEANUP_def VTYPE_string_def setCleanupInterval_def truthy_def text_engine_simps
        js_add_exact)

text \<open>
  Claim C8, as the code has it. Only an accepted \<open>put\<close> runs the throttled sweep: its effect
  is the upsert followed by \<open>cleanup\<close>. A rejected \<open>put\<close> changes nothing; \<open>delete\<close> removes
  the rows of its key and \<open>clear\<close> all rows, and neither touches \<open>timing\<close> or any other row;
  \<open>get\<close> and \<open>list\<close> change nothing.
\<close>

theorem sweep_only_in_accepted_put:
  "(Math_trunc (case e of None \<Rightarrow> 0 | Some y \<Rightarrow> y) = 0 \<or>
    t \<le> Math_trunc (case e of None \<Rightarrow> 0 | Some y \<Rightarrow> y) \<longrightarrow>
      put eng k v e t s =
        cleanup t (s\<lparr>sql := UPSERT eng k (fst (toStoreValue v))
                       (Math_trunc (case e of None \<Rightarrow> 0 | Some y \<Rightarrow> y))
                       (snd (toStoreValue v)) (sql s)\<rparr>)) \<and>
   (Math_trunc (case e of None \<Rightarrow> 0 | Some y \<Rightarrow> y) \<noteq> 0 \<and>
    Math_trunc (case e of None \<Rightarrow> 0 | Some y \<Rightarrow> y) < t \<longrightarrow> put eng k v e t s = s) \<and>
   step eng (Delete k) t s = s\<lparr>sql := filter (\<lambda>r. key r \<noteq> affinity eng k) (sql s)\<rparr> \<and>
   step eng Clear t s = s\<lparr>sql := []\<rparr> \<and>
   step eng (Get k) t s = s \<and>
   step eng (List options ignoreTtl) t s = s"
  by (auto simp: put_def delete_def DELETE_def clear_def CLEAR_def split: prod.splits)

theorem sweep_only_in_accepted_put_witness:
  "put text_engine ''new'' (Str ''w'') None 90000
     \<lparr>sql = [\<lparr>key = ''old'', val = ''v'', ttl = 60, vtype = 0\<rparr>], interval = 86400, timing = 86410\<rparr>
     = \<lparr>sql = [\<lparr>key = ''new'', val = ''w'', ttl = 0, vtype = 0\<rparr>], interval = 86400,
        timing = 176400\<rparr> \<and>
   put text_engine ''new'' (Str ''w'') (Some 70) 90000
     \<lparr>sql = [\<lparr>key = ''old'', val = ''v'', ttl = 60, vtype = 0\<rparr>], interval = 86400, timing = 86410\<rparr>
     = \<lparr>sql = [\<lparr>key = ''old'', val = ''v'', ttl = 60, vtype = 0\<rparr>], interval = 86400,
        timing = 86410\<rparr>"
  using sweep_only_in_accepted_put [of None 90000 text_engine "''new''" "Str ''w''"
      "\<lparr>sql = [\<lparr>key = ''old'', val = ''v'', ttl = 60, vtype = 0\<rparr>], interval = 86400,
        timing = 86410\<rparr>"]
    sweep_only_in_accepted_put [of "Some 70" 90000 text_engine "''new''" "Str ''w''"
      "\<lparr>sql = [\<lparr>key = ''old'', val = ''v'', ttl = 60, vtype = 0\<rparr>], interval = 86400,
        timing = 86410\<rparr>"]
  by (simp add: Math_trunc_def toStoreValue_def VTYPE_string_def cleanup_def CLEANUP_def
        text_engine_simps js_add_exact)

text \<open>
  Claim C8 as worded (every write runs the sweep) fails for \<open>delete\<close> and \<open>clear\<close>. After
  \<open>put("old", "v", 60)\<close> at time 10 the sweep is due at any time after 86410 and would remove
  the row; \<open>delete("x")\<close> at time 90000 leaves the store as it is, and \<open>clear()\<close> leaves
  \<open>timing\<close> as it is.
\<close>

theorem delete_runs_no_sweep_counterexample:
  "timing (put text_engine ''old'' (Str ''v'') (Some 60) 10 (DOKVS_new [])) < 90000 \<and>
   cleanup 90000 (put text_engine ''old'' (Str ''v'') (Some 60) 10 (DOKVS_new []))
     = \<lparr>sql = [], interval = 86400, timing = 176400\<rparr> \<and>
   step text_engine (Delete ''x'') 90000
       (put text_engine ''old'' (Str ''v'') (Some 60) 10 (DOKVS_new []))
     = \<lparr>sql = [\<lparr>key = ''old'', val = ''v'', ttl = 60, vtype = 0\<rparr>], interval = 86400,
        timing = 86410\<rparr> \<and>
   step text_engine Clear 90000
       (put text_engine ''old'' (Str ''v'') (Some 60) 10 (DOKVS_new []))
     = \<lparr>sql = [], interval = 86400, timing = 86410\<rparr>"
  by (simp add: put_def Math_trunc_def toStoreValue_def cleanup_def DOKVS_new_def
        CLEANUP_def VTYPE_string_def delete_def DELETE_def clear_def CLEAR_def
        text_engine_simps js_add_exact)

subsection \<open>Configuring the sweep\<close>

text \<open>
  Claim C9. \<open>setCleanupInterval i reset\<close> with \<open>i \<le> 0\<close> changes nothing and raises nothing.
  With \<open>i > 0\<close> the interval becomes \<open>i\<close> truncated, the rows stay, and \<open>timing\<close> becomes
  the sum of \<open>t\<close> and the new interval as JavaScript adds them when \<open>reset\<close> is true, which is
  \<open>t\<close> plus the new interval as long as that is at most \<open>2^53\<close>, and stays otherwise.
\<close>

theorem setCleanupInterval_effect:
  "(i \<le> 0 \<longrightarrow> setCleanupInterval i reset t s = s) \<and>
   (0 < i \<longrightarrow>
      interval (setCleanupInterval i reset t s) = Math_trunc i \<and>
      sql (setCleanupInterval i reset t s) = sql s \<and>
      timing (setCleanupInterval i reset t s)
        = (if reset = Some True then js_add t (Math_trunc i) else timing s) \<and>
      (reset = Some True \<and> \<bar>t + Math_trunc i\<bar> \<le> 2 ^ 53 \<longrightarrow>
         timing (setCleanupInterval i reset t s) = t + Math_trunc i))"
  by (auto simp: setCleanupInterval_def Let_def truthy_def js_add_exact split: option.splits)

theorem setCleanupInterval_effect_witness:
  "setCleanupInterval (- 1) (Some True) 100 (DOKVS_new ([] :: string row list)) = DOKVS_new [] \<and>
   setCleanupInterval 0 (Some True) 100 (DOKVS_new ([] :: string row list)) = DOKVS_new [] \<and>
   interval (setCleanupInterval (5 / 2) (Some True) 100 (DOKVS_new ([] :: string row list))) = 2 \<and>
   timing (setCleanupInterval (5 / 2) (Some True) 100 (DOKVS_new ([] :: string row list))) = 102 \<and>
   timing (setCleanupInterval (5 / 2) None 100 (DOKVS_new ([] :: string row list))) = 0 \<and>
   timing (setCleanupInterval 9007199254740992 (Some True) 101 (DOKVS_new ([] :: string row list)))
     = 9007199254741092"
proof -
  have "Math_trunc (5 / 2) = 2" "Math_trunc 9007199254740992 = 9007199254740992"
    by (simp_all add: Math_trunc_def)
  then show ?thesis
    using setCleanupInterval_effect [of "- 1" "Some True" 100 "DOKVS_new ([] :: string row list)"]
      setCleanupInterval_effect [of 0 "Some True" 100 "DOKVS_new ([] :: string row list)"]
      setCleanupInterval_effect [of "5 / 2" "Some True" 100 "DOKVS_new ([] :: string row list)"]
      setCleanupInterval_effect [of "5 / 2" None 100 "DOKVS_new ([] :: string row list)"]
      setCleanupInterval_effect [of 9007199254740992 "Some True" 101
        "DOKVS_new ([] :: string row list)"]
    by (simp add: DOKVS_new_def js_add_rounds)
qed

subsection \<open>Listing keys\<close>

lemma set_AList_update: "set (AList.update k v al) \<subseteq> insert (k, v) (set al)"
  by (induction al) auto

lemma length_AList_update: "length (AList.update k v al) \<le> Suc (length al)"
  by (induction al) auto

lemma AList_update_new: "k \<notin> fst ` set al \<Longrightarrow> AList.update k v al = al @ [(k, v)]"
  by (induction al) auto

lemma set_fold_update:
  "set (fold (\<lambda>(k, v) m. AList.update k v m) es acc) \<subseteq> set acc \<union> set es"
proof (induction es arbitrary: acc)
  case Nil
  show ?case by simp
next
  case (Cons e es)
  obtain k v where e: "e = (k, v)" by (cases e)
  show ?case
    using Cons.IH [of "AList.update k v acc"] set_AList_update [of k v acc]
    by (auto simp: e)
qed

lemma keys_fold_update:
  "fst ` set (fold (\<lambda>(k, v) m. AList.update k v m) es acc) = fst ` set acc \<union> fst ` set es"
proof (induction es arbitrary: acc)
  case Nil
  show ?case by simp
next
  case (Cons e es)
  obtain k v where e: "e = (k, v)" by (cases e)
  show ?case
    using Cons.IH [of "AList.update k v acc"] by (auto simp: e dom_update)
qed

lemma length_fold_update:
  "length (fold (\<lambda>(k, v) m. AList.update k v m) es acc) \<le> length acc + length es"
proof (induction es arbitrary: acc)
  case Nil
  show ?case by simp
next
  case (Cons e es)
  obtain k v where e: "e = (k, v)" by (cases e)
  show ?case
    using Cons.IH [of "AList.update k v acc"] length_AList_update [of k v acc]
    by (simp add: e)
qed

lemma set_Map_new: "set (Map_new es) \<subseteq> set es"
  using set_fold_update [of es "[]"] by (simp add: Map_new_def)

lemma keys_Map_new: "fst ` set (Map_new es) = fst ` set es"
  using keys_fold_update [of es "[]"] by (simp add: Map_new_def)

lemma length_Map_new: "length (Map_new es) \<le> length es"
  using length_fold_update [of es "[]"] by (simp add: Map_new_def)

lemma list_limit_bounds: "1 \<le> list_limit options \<and> list_limit options \<le> 1000"
proof -
  have "1 \<le> Math_trunc (min (max x 1) 1000) \<and> Math_trunc (min (max x 1) 1000) \<le> 1000" for x
  proof -
    have "1 \<le> min (max x 1) 1000" "min (max x 1) 1000 \<le> 1000" by simp_all
    then show ?thesis
      unfolding Math_trunc_def by (auto simp: le_floor_iff floor_le_iff)
  qed
  then show ?thesis unfolding list_limit_def Let_def by blast
qed

lemma list_limit_given:
  assumes "options = Some opts" "limit opts = Some n"
  shows "real_of_int (list_limit options) \<le> max n 1"
proof -
  have "real_of_int \<lfloor>min (max n 1) 1000\<rfloor> \<le> min (max n 1) 1000" by (rule of_int_floor_le)
  also have "\<dots> \<le> max n 1" by simp
  finally have "real_of_int \<lfloor>min (max n 1) 1000\<rfloor> \<le> max n 1" .
  moreover have "\<not> min (max n 1) 1000 < 0" by simp
  ultimately show ?thesis
    using assms by (simp add: list_limit_def Math_trunc_def Let_def)
qed

lemma like_all: "like ''%'' s"
  by (induction s) auto

lemma lower_ascii_same:
  assumes "lower_ascii a = lower_ascii b"
    and "\<not> is_letter a \<or> (\<not> is_upper a \<and> \<not> is_upper b)"
  shows "a = b"
proof (cases "is_upper b")
  case False
  with assms show ?thesis
    by (auto simp: lower_ascii_def is_letter_def is_upper_def Let_def split: if_splits)
next
  case True
  with assms(2) have na: "\<not> is_letter a" by auto
  then have "lower_ascii a = a" by (auto simp: lower_ascii_def is_letter_def is_upper_def)
  with assms(1) True have "a = char_of ((of_char b :: nat) + 32)"
    by (simp add: lower_ascii_def is_upper_def)
  then have "(of_char a :: nat) = ((of_char b :: nat) + 32) mod 256" by simp
  with True have "97 \<le> (of_char a :: nat) \<and> (of_char a :: nat) \<le> 122"
    by (auto simp: is_upper_def)
  with na show ?thesis by (simp add: is_letter_def)
qed

lemma like_prefix_exact:
  assumes "CHR ''%'' \<notin> set p" "CHR ''_'' \<notin> set p" "like (p @ ''%'') s"
    and "no_letter p \<or> (no_upper p \<and> no_upper s)"
  shows "startsWith s p"
  using assms
proof (induction p arbitrary: s)
  case Nil
  show ?case by (simp add: startsWith_def)
next
  case (Cons c p)
  show ?case
  proof (cases s)
    case Nil
    with Cons.prems show ?thesis by simp
  next
    case (Cons d ds)
    with Cons.prems have m: "lower_ascii c = lower_ascii d" "like (p @ ''%'') ds" by auto
    from Cons.prems(4) have "\<not> is_letter c \<or> (\<not> is_upper c \<and> \<not> is_upper d)"
      by (auto simp: no_letter_def no_upper_def Cons)
    with m(1) have cd: "c = d" by (rule lower_ascii_same)
    from Cons.prems(4) have "no_letter p \<or> (no_upper p \<and> no_upper ds)"
      by (auto simp: no_letter_def no_upper_def Cons)
    moreover from Cons.prems have "CHR ''%'' \<notin> set p" "CHR ''_'' \<notin> set p" by auto
    ultimately have "startsWith ds p" using m(2) Cons.IH [of ds] by simp
    with cd show ?thesis by (simp add: startsWith_def Cons)
  qed
qed

lemma list_prefix_plain:
  assumes "options = Some opts" "prefix opts = Some p" "CHR ''%'' \<notin> set p"
  shows "list_prefix options = p @ ''%''"
proof -
  from assms(3) have "p \<noteq> ''%''" by auto
  with assms(1,2) show ?thesis by (simp add: list_prefix_def)
qed

lemma list_prefix_all:
  assumes "(case options of None \<Rightarrow> None | Some opts \<Rightarrow> prefix opts) \<in> {None, Some ''%'', Some ''''}"
  shows "list_prefix options = ''%''"
  using assms by (auto simp: list_prefix_def)

lemma set_list_order: "engine_ok eng \<Longrightarrow> set (list_order eng pat t rows) = set rows"
  unfolding engine_ok_def by (metis set_mset_mset)

lemma length_list_order: "engine_ok eng \<Longrightarrow> length (list_order eng pat t rows) = length rows"
  unfolding engine_ok_def by (metis size_mset)

text \<open>The rows that a listing reads, when the engine does not refuse it.\<close>

lemma list_Inr:
  assumes "list eng options ignoreTtl t s = Inr res"
  shows "res = Map_new (map (\<lambda>r. (read_key eng (key r), ttl r))
           (take (nat (list_limit options))
              (list_order eng (list_prefix options) (if truthy ignoreTtl then 0 else t)
                 (filter (\<lambda>r. like (list_prefix options) (text_of eng (key r))
                              \<and> live (if truthy ignoreTtl then 0 else t) r) (sql s)))))"
  using assms by (auto simp: list_def LIST_def split: if_splits)

lemma list_returns:
  "\<not> like_raises eng (list_prefix options) (if truthy ignoreTtl then 0 else t) (sql s) \<Longrightarrow>
     \<exists>res. list eng options ignoreTtl t s = Inr res"
  by (simp add: list_def LIST_def)

lemma list_row:
  assumes "engine_ok eng" "list eng options ignoreTtl t s = Inr res" "(k, e) \<in> set res"
  shows "\<exists>r \<in> set (sql s). read_key eng (key r) = k \<and> ttl r = e
           \<and> like (list_prefix options) (text_of eng (key r))
           \<and> (truthy ignoreTtl \<or> e = 0 \<or> t \<le> e)"
proof -
  let ?t = "if truthy ignoreTtl then 0 else t"
  let ?match = "filter (\<lambda>r. like (list_prefix options) (text_of eng (key r)) \<and> live ?t r) (sql s)"
  let ?rows = "take (nat (list_limit options)) (list_order eng (list_prefix options) ?t ?match)"
  from assms(3) have "(k, e) \<in> set (map (\<lambda>r. (read_key eng (key r), ttl r)) ?rows)"
    using set_Map_new unfolding list_Inr [OF assms(2)] by blast
  then obtain r where r: "r \<in> set ?rows" "read_key eng (key r) = k" "ttl r = e" by auto
  from r(1) have "r \<in> set (list_order eng (list_prefix options) ?t ?match)"
    by (rule in_set_takeD)
  then have "r \<in> set ?match" by (simp only: set_list_order [OF assms(1)])
  then have "r \<in> set (sql s)" "like (list_prefix options) (text_of eng (key r))" "live ?t r"
    by auto
  with r(2,3) show ?thesis by (auto simp: live_def split: if_splits)
qed

lemma length_list:
  assumes "list eng options ignoreTtl t s = Inr res"
  shows "int (length res) \<le> list_limit options"
proof -
  let ?t = "if truthy ignoreTtl then 0 else t"
  let ?match = "filter (\<lambda>r. like (list_prefix options) (text_of eng (key r)) \<and> live ?t r) (sql s)"
  let ?rows = "take (nat (list_limit options)) (list_order eng (list_prefix options) ?t ?match)"
  have "length res \<le> length ?rows"
    using length_Map_new [of "map (\<lambda>r. (read_key eng (key r), ttl r)) ?rows"]
    by (simp add: list_Inr [OF assms])
  also have "\<dots> \<le> nat (list_limit options)" by simp
  finally show ?thesis using list_limit_bounds [of options] by linarith
qed

text \<open>
  Claim C5, as the code has it by design. A listing that the engine does not refuse returns
  at most \<open>limit\<close> entries, the limit being clamped to the range from 1 to 1000 (and then
  truncated) and 1000 when omitted. Every returned entry is the key and the \<open>ttl\<close> of a row
  of the table, and that row is live at \<open>t\<close> unless \<open>ignoreTtl\<close> is set. A prefix that is
  exactly \<open>%\<close> (like an omitted or empty one) filters nothing. The key of a returned entry
  starts with the prefix when the prefix contains neither \<open>%\<close> nor \<open>_\<close> and letter case plays
  no part (the prefix has no ASCII letter, or neither the prefix nor the key has an upper-case
  ASCII letter); about the other prefixes nothing is stated here.
\<close>

theorem list_entries:
  assumes "engine_ok eng" "list eng options ignoreTtl t s = Inr res"
  shows "length res \<le> 1000 \<and>
   ((case options of None \<Rightarrow> None | Some opts \<Rightarrow> limit opts) = None \<longrightarrow>
      list_limit options = 1000) \<and>
   (options = Some opts \<and> limit opts = Some n \<longrightarrow> real (length res) \<le> max n 1) \<and>
   (options = Some opts \<and> prefix opts = Some ''%'' \<longrightarrow>
      list_prefix options = ''%'' \<and> like (list_prefix options) x) \<and>
   ((k, e) \<in> set res \<longrightarrow>
      (\<exists>r \<in> set (sql s). read_key eng (key r) = k \<and> ttl r = e \<and>
         (truthy ignoreTtl \<or> e = 0 \<or> t \<le> e) \<and>
         (options = Some opts \<and> prefix opts = Some p \<and>
          CHR ''%'' \<notin> set p \<and> CHR ''_'' \<notin> set p \<and>
          (no_letter p \<or> (no_upper p \<and> no_upper (text_of eng (key r)))) \<longrightarrow>
            startsWith (text_of eng (key r)) p)))"
proof -
  have a: "length res \<le> 1000"
    using length_list [OF assms(2)] list_limit_bounds [of options] by linarith
  have b: "list_limit options = 1000"
    if "(case options of None \<Rightarrow> None | Some opts \<Rightarrow> limit opts) = None"
    using that by (simp add: list_limit_def Math_trunc_def)
  have c: "real (length res) \<le> max n 1" if "options = Some opts \<and> limit opts = Some n"
  proof -
    have "real (length res) \<le> real_of_int (list_limit options)"
      using length_list [OF assms(2)] by linarith
    also have "\<dots> \<le> max n 1" using that by (simp add: list_limit_given)
    finally show ?thesis .
  qed
  have d: "list_prefix options = ''%'' \<and> like (list_prefix options) x"
    if "options = Some opts \<and> prefix opts = Some ''%''"
    using that list_prefix_all [of options] like_all [of x] by simp
  have f: "\<exists>r \<in> set (sql s). read_key eng (key r) = k \<and> ttl r = e \<and>
         (truthy ignoreTtl \<or> e = 0 \<or> t \<le> e) \<and>
         (options = Some opts \<and> prefix opts = Some p \<and>
          CHR ''%'' \<notin> set p \<and> CHR ''_'' \<notin> set p \<and>
          (no_letter p \<or> (no_upper p \<and> no_upper (text_of eng (key r)))) \<longrightarrow>
            startsWith (text_of eng (key r)) p)"
    if m: "(k, e) \<in> set res"
  proof -
    from list_row [OF assms m] obtain r where r: "r \<in> set (sql s)" "read_key eng (key r) = k"
      "ttl r = e" "like (list_prefix options) (text_of eng (key r))"
      "truthy ignoreTtl \<or> e = 0 \<or> t \<le> e" by blast
    have "startsWith (text_of eng (key r)) p"
      if "options = Some opts" "prefix opts = Some p"
        "CHR ''%'' \<notin> set p" "CHR ''_'' \<notin> set p"
        "no_letter p \<or> (no_upper p \<and> no_upper (text_of eng (key r)))"
      using like_prefix_exact [OF that(3,4) _ that(5)] r(4) list_prefix_plain [OF that(1,2,3)]
      by simp
    with r show ?thesis by blast
  qed
  from a b c d f show ?thesis by blast
qed

theorem list_entries_witness:
  "list text_engine (Some \<lparr>prefix = Some ''key'', limit = Some (3 / 2)\<rparr>) None 100
     (put text_engine ''key1'' (Str ''b'') (Some 160) 100
        (put text_engine ''other'' (Str ''a'') None 100 (DOKVS_new [])))
     = Inr [(''key1'', 160)] \<and>
   startsWith ''key1'' ''key''"
proof -
  let ?s = "put text_engine ''key1'' (Str ''b'') (Some 160) 100
              (put text_engine ''other'' (Str ''a'') None 100 (DOKVS_new []))"
  let ?o = "\<lparr>prefix = Some ''key'', limit = Some (3 / 2)\<rparr>"
  have s: "sql ?s = [\<lparr>key = ''other'', val = ''a'', ttl = 0, vtype = 0\<rparr>,
                     \<lparr>key = ''key1'', val = ''b'', ttl = 160, vtype = 0\<rparr>]"
    by (simp add: put_def Math_trunc_def toStoreValue_def cleanup_def DOKVS_new_def
          CLEANUP_def VTYPE_string_def text_engine_simps js_add_exact)
  have m: "like ''key%'' ''key1''" "\<not> like ''key%'' ''other''" by code_simp+
  have l: "list text_engine (Some ?o) None 100 ?s = Inr [(''key1'', 160)]"
    by (simp add: list_def s list_prefix_def list_limit_def Math_trunc_def truthy_def LIST_def
          live_def m Map_new_def text_engine_simps del: like.simps)
  have u: "no_upper ''key''" "no_upper ''key1''" by (simp_all add: no_upper_def is_upper_def)
  show ?thesis
    using list_entries [OF engine_ok_text_engine l, of ?o "3 / 2" "[]" "''key1''" 160 "''key''"] u
    by (auto simp: l s text_engine_simps)
qed

text \<open>
  Claim C5 as worded (every returned key starts with the prefix string) fails for the
  prefix \<open>"%"\<close>, which the code passes on as the pattern that matches every key: the key
  \<open>"a"\<close> is returned and does not start with \<open>"%"\<close>.
\<close>

theorem list_wildcard_prefix_counterexample:
  "list text_engine (Some \<lparr>prefix = Some ''%'', limit = None\<rparr>) None 100
     (put text_engine ''a'' (Str ''1'') None 100 (DOKVS_new [])) = Inr [(''a'', 0)] \<and>
   \<not> startsWith ''a'' ''%''"
  by (simp add: put_def Math_trunc_def toStoreValue_def cleanup_def DOKVS_new_def
        CLEANUP_def VTYPE_string_def list_def list_prefix_def list_limit_def truthy_def
        LIST_def live_def Map_new_def startsWith_def text_engine_simps js_add_exact)

subsection \<open>Rows of a reachable store\<close>

lemma fold_update_distinct:
  "distinct (map fst (acc @ es)) \<Longrightarrow>
     fold (\<lambda>(k, v) m. AList.update k v m) es acc = acc @ es"
proof (induction es arbitrary: acc)
  case Nil
  show ?case by simp
next
  case (Cons e es)
  obtain k v where e: "e = (k, v)" by (cases e)
  from Cons.prems have new: "k \<notin> fst ` set acc" by (auto simp: e)
  from Cons.prems have "distinct (map fst ((acc @ [(k, v)]) @ es))" by (simp add: e)
  from Cons.IH [OF this] show ?case by (simp add: e AList_update_new [OF new])
qed

lemma Map_new_distinct: "distinct (map fst es) \<Longrightarrow> Map_new es = es"
  using fold_update_distinct [of "[]" es] by (simp add: Map_new_def)

lemma toUseValue_known: "vt = 0 \<or> vt = 1 \<Longrightarrow> toUseValue v vt \<noteq> Inr None"
  by (auto simp: toUseValue_def VTYPE_string_def VTYPE_buffer_def split: sum.splits)

lemma mset_take_subset: "mset (take n xs) \<subseteq># mset xs"
proof -
  have "mset xs = mset (take n xs) + mset (drop n xs)"
    by (metis append_take_drop_id mset_append)
  then show ?thesis by simp
qed

text \<open>
  With \<open>ignoreTtl\<close> the rows that a listing reads are rows that match the pattern, expired or
  not, each at most once, as many as the limit allows.
\<close>

lemma list_ignoreTtl_rows:
  assumes "rows_ok s" "engine_ok eng" "list eng options (Some True) t s = Inr res"
  shows "\<exists>rows. res = Map_new (map (\<lambda>r. (read_key eng (key r), ttl r)) rows) \<and>
           mset rows \<subseteq># mset (filter (\<lambda>r. like (list_prefix options) (text_of eng (key r)))
                                (sql s)) \<and>
           length rows = min (nat (list_limit options))
             (length (filter (\<lambda>r. like (list_prefix options) (text_of eng (key r))) (sql s)))"
proof -
  let ?P = "\<lambda>r. like (list_prefix options) (text_of eng (key r))"
  let ?rows = "take (nat (list_limit options))
                 (list_order eng (list_prefix options) 0 (filter ?P (sql s)))"
  have same: "filter (\<lambda>r. ?P r \<and> live 0 r) (sql s) = filter ?P (sql s)"
    using assms(1) by (intro filter_cong) (auto simp: rows_ok_def live_def)
  have res: "res = Map_new (map (\<lambda>r. (read_key eng (key r), ttl r)) ?rows)"
    using list_Inr [OF assms(3)] by (simp add: truthy_def same)
  have "mset ?rows \<subseteq># mset (list_order eng (list_prefix options) 0 (filter ?P (sql s)))"
    by (rule mset_take_subset)
  then have sub: "mset ?rows \<subseteq># mset (filter ?P (sql s))"
    using assms(2) by (simp add: engine_ok_def)
  have len: "length ?rows = min (nat (list_limit options)) (length (filter ?P (sql s)))"
    by (simp add: length_list_order [OF assms(2)] min.commute)
  from res sub len show ?thesis by blast
qed

lemma list_ignoreTtl_all:
  assumes "keys_unique s" "rows_ok s" "engine_ok eng"
    and "list eng options (Some True) t s = Inr res"
    and "length (filter (\<lambda>r. like (list_prefix options) (text_of eng (key r))) (sql s))
           \<le> nat (list_limit options)"
    and "r \<in> set (sql s)" "like (list_prefix options) (text_of eng (key r))"
  shows "read_key eng (key r) \<in> fst ` set res \<and>
         (inj_on (read_key eng) (key ` set (sql s)) \<longrightarrow>
            (read_key eng (key r), ttl r) \<in> set res)"
proof -
  let ?P = "\<lambda>r. like (list_prefix options) (text_of eng (key r))"
  let ?ord = "list_order eng (list_prefix options) 0 (filter ?P (sql s))"
  have same: "filter (\<lambda>r. ?P r \<and> live 0 r) (sql s) = filter ?P (sql s)"
    using assms(2) by (intro filter_cong) (auto simp: rows_ok_def live_def)
  have "take (nat (list_limit options)) ?ord = ?ord"
    using assms(5) by (simp add: length_list_order [OF assms(3)])
  then have res: "res = Map_new (map (\<lambda>r. (read_key eng (key r), ttl r)) ?ord)"
    using list_Inr [OF assms(4)] by (simp add: truthy_def same)
  have mem: "r \<in> set ?ord"
    using assms(6,7) by (simp add: set_list_order [OF assms(3)])
  have k: "read_key eng (key r) \<in> fst ` set res"
    using mem by (force simp: res keys_Map_new)
  have e: "(read_key eng (key r), ttl r) \<in> set res"
    if inj: "inj_on (read_key eng) (key ` set (sql s))"
  proof -
    have "mset (map key ?ord) = mset (map key (filter ?P (sql s)))"
      using assms(3) by (simp add: engine_ok_def)
    moreover have "distinct (map key (filter ?P (sql s)))"
      using assms(1) by (simp add: keys_unique_def distinct_map_filter)
    ultimately have d: "distinct (map key ?ord)"
      by (metis mset_eq_imp_distinct_iff)
    have "set (map key ?ord) \<subseteq> key ` set (sql s)"
      by (auto simp: set_list_order [OF assms(3)])
    with inj have "inj_on (read_key eng) (set (map key ?ord))"
      by (rule inj_on_subset)
    with d have "distinct (map key ?ord) \<and> inj_on (read_key eng) (set (map key ?ord))"
      by blast
    then have "distinct (map (read_key eng) (map key ?ord))"
      by (rule iffD2 [OF distinct_map])
    then have "distinct (map fst (map (\<lambda>r. (read_key eng (key r), ttl r)) ?ord))"
      by (simp add: o_def)
    from Map_new_distinct [OF this] mem show ?thesis by (force simp: res)
  qed
  from k e show ?thesis by blast
qed

text \<open>
  Claim C10, as the code has it. In every store reached by calls made at non-negative
  times, each row has \<open>ttl \<ge> 0\<close> and \<open>vtype\<close> 0 or 1, and every further call keeps this; so
  decoding a stored row never takes the branch of an unknown kind, and a listing with
  \<open>ignoreTtl\<close> that the engine does not refuse filters no row by expiry: it reads rows whose
  key matches the pattern, each once, as many as the limit allows, and so returns the key of
  every such row when they are not more than the limit (with the \<open>ttl\<close> of the row, when the
  keys are read back without loss).
\<close>

theorem reachable_rows_wellformed:
  assumes "reachable eng s" "engine_ok eng"
  shows "(\<forall>r \<in> set (sql s). 0 \<le> ttl r \<and> (vtype r = 0 \<or> vtype r = 1) \<and>
            toUseValue (val r) (vtype r) \<noteq> Inr None) \<and>
         (0 \<le> t' \<longrightarrow>
            (\<forall>r \<in> set (sql (step eng opn t' s)). 0 \<le> ttl r \<and> (vtype r = 0 \<or> vtype r = 1))) \<and>
         (list eng options (Some True) t s = Inr res \<longrightarrow>
            (\<exists>rows. res = Map_new (map (\<lambda>r. (read_key eng (key r), ttl r)) rows) \<and>
               mset rows \<subseteq># mset (filter (\<lambda>r. like (list_prefix options) (text_of eng (key r)))
                                    (sql s)) \<and>
               length rows = min (nat (list_limit options))
                 (length (filter (\<lambda>r. like (list_prefix options) (text_of eng (key r)))
                    (sql s)))) \<and>
            (length (filter (\<lambda>r. like (list_prefix options) (text_of eng (key r))) (sql s))
               \<le> nat (list_limit options) \<longrightarrow>
               (\<forall>r \<in> set (sql s). like (list_prefix options) (text_of eng (key r)) \<longrightarrow>
                  read_key eng (key r) \<in> fst ` set res \<and>
                  (inj_on (read_key eng) (key ` set (sql s)) \<longrightarrow>
                     (read_key eng (key r), ttl r) \<in> set res))))"
proof -
  from assms(1) have ok: "rows_ok s" and ku: "keys_unique s"
    by (rule reachable_rows_ok, rule reachable_keys_unique)
  have a: "\<forall>r \<in> set (sql s). 0 \<le> ttl r \<and> (vtype r = 0 \<or> vtype r = 1) \<and>
            toUseValue (val r) (vtype r) \<noteq> Inr None"
    using ok toUseValue_known unfolding rows_ok_def by blast
  have b: "\<forall>r \<in> set (sql (step eng opn t' s)). 0 \<le> ttl r \<and> (vtype r = 0 \<or> vtype r = 1)"
    if "0 \<le> t'"
    using step_rows_ok [OF ok that, of eng opn] by (simp add: rows_ok_def)
  have c: "\<exists>rows. res = Map_new (map (\<lambda>r. (read_key eng (key r), ttl r)) rows) \<and>
               mset rows \<subseteq># mset (filter (\<lambda>r. like (list_prefix options) (text_of eng (key r)))
                                    (sql s)) \<and>
               length rows = min (nat (list_limit options))
                 (length (filter (\<lambda>r. like (list_prefix options) (text_of eng (key r)))
                    (sql s)))"
    if "list eng options (Some True) t s = Inr res"
    using list_ignoreTtl_rows [OF ok assms(2) that] .
  have d: "\<forall>r \<in> set (sql s). like (list_prefix options) (text_of eng (key r)) \<longrightarrow>
                  read_key eng (key r) \<in> fst ` set res \<and>
                  (inj_on (read_key eng) (key ` set (sql s)) \<longrightarrow>
                     (read_key eng (key r), ttl r) \<in> set res)"
    if "list eng options (Some True) t s = Inr res"
      "length (filter (\<lambda>r. like (list_prefix options) (text_of eng (key r))) (sql s))
               \<le> nat (list_limit options)"
    using list_ignoreTtl_all [OF ku ok assms(2) that] by blast
  from a b c d show ?thesis by blast
qed

theorem reachable_rows_wellformed_witness:
  "sql (put text_engine ''b'' (Str ''2'') (Some 160) 100
          (put text_engine ''a'' (Buf [7]) None 100 (DOKVS_new [])))
     = [\<lparr>key = ''a'', val = ''07'', ttl = 0, vtype = 1\<rparr>,
        \<lparr>key = ''b'', val = ''2'', ttl = 160, vtype = 0\<rparr>] \<and>
   list text_engine None (Some True) 500
     (put text_engine ''b'' (Str ''2'') (Some 160) 100
        (put text_engine ''a'' (Buf [7]) None 100 (DOKVS_new [])))
     = Inr [(''a'', 0), (''b'', 160)] \<and>
   (''b'', 160) \<in> set [(''a'', 0 :: int), (''b'', 160)]"
proof -
  let ?s = "put text_engine ''b'' (Str ''2'') (Some 160) 100
              (put text_engine ''a'' (Buf [7]) None 100 (DOKVS_new []))"
  have "reachable text_engine (step text_engine (Put ''b'' (Str ''2'') (Some 160)) 100
          (step text_engine (Put ''a'' (Buf [7]) None) 100 (DOKVS_new [])))"
    by (intro reachable.intros) simp_all
  then have r: "reachable text_engine ?s" by simp
  have h: "bin2str [7] = ''07''"
    by (simp add: bin2str_def byte_hex) code_simp
  have s: "sql ?s = [\<lparr>key = ''a'', val = ''07'', ttl = 0, vtype = 1\<rparr>,
                     \<lparr>key = ''b'', val = ''2'', ttl = 160, vtype = 0\<rparr>]"
    by (simp add: put_def Math_trunc_def toStoreValue_def cleanup_def DOKVS_new_def
          CLEANUP_def VTYPE_string_def VTYPE_buffer_def h text_engine_simps js_add_exact)
  have l: "list text_engine None (Some True) 500 ?s = Inr [(''a'', 0), (''b'', 160)]"
    by (simp add: list_def LIST_def s list_prefix_def list_limit_def Math_trunc_def truthy_def
          live_def Map_new_def text_engine_simps)
  have i: "inj_on (read_key text_engine) (key ` set (sql ?s))"
    by (simp add: inj_on_def text_engine_simps)
  show ?thesis
    using reachable_rows_wellformed [OF r engine_ok_text_engine,
        of 0 Clear None 500 "[(''a'', 0), (''b'', 160)]"] l i
    by (simp add: s list_prefix_def list_limit_def Math_trunc_def text_engine_simps)
qed

text \<open>
  Claim C10 as worded (\<open>list\<close> with \<open>ignoreTtl\<close> returns every matching row that is
  present) fails when more rows match than the limit allows: with two rows and the
  limit 1, both rows are present and match, and one entry is returned.
\<close>

theorem list_ignoreTtl_limit_counterexample:
  "reachable text_engine (step text_engine (Put ''b'' (Str ''2'') None) 100
      (step text_engine (Put ''a'' (Str ''1'') None) 100 (DOKVS_new []))) \<and>
   sql (step text_engine (Put ''b'' (Str ''2'') None) 100
      (step text_engine (Put ''a'' (Str ''1'') None) 100 (DOKVS_new [])))
     = [\<lparr>key = ''a'', val = ''1'', ttl = 0, vtype = 0\<rparr>,
        \<lparr>key = ''b'', val = ''2'', ttl = 0, vtype = 0\<rparr>] \<and>
   like (list_prefix (Some \<lparr>prefix = None, limit = Some 1\<rparr>)) ''a'' \<and>
   like (list_prefix (Some \<lparr>prefix = None, limit = Some 1\<rparr>)) ''b'' \<and>
   list text_engine (Some \<lparr>prefix = None, limit = Some 1\<rparr>) (Some True) 100
     (step text_engine (Put ''b'' (Str ''2'') None) 100
        (step text_engine (Put ''a'' (Str ''1'') None) 100 (DOKVS_new [])))
     = Inr [(''a'', 0)]"
proof -
  have "reachable text_engine (step text_engine (Put ''b'' (Str ''2'') None) 100
      (step text_engine (Put ''a'' (Str ''1'') None) 100 (DOKVS_new [])))"
    by (intro reachable.intros) simp_all
  then show ?thesis
    by (simp add: put_def Math_trunc_def toStoreValue_def cleanup_def DOKVS_new_def
        CLEANUP_def VTYPE_string_def list_def list_prefix_def list_limit_def truthy_def
        LIST_def live_def Map_new_def text_engine_simps js_add_exact)
qed

subsection \<open>Schema bootstrap\<close>

lemma initialize_flag_set: "isTable c \<Longrightarrow> initialize_calls c = [] \<and> initialize c = Inr c"
  by (simp add: initialize_def initialize_calls_def)

lemma initialize_flag_unset:
  "\<not> isTable c \<Longrightarrow> initialize_calls c = [storage_put_init, exec_TABLE, exec_INDEX]"
  by (simp add: initialize_calls_def createTable_def)

text \<open>
  The states of a lifetime: the store before its first instance, the four stages of the
  first bootstrap, and the bootstrapped store with or without a live instance.
\<close>

lemma lifetime_shapes:
  assumes "lifetime_reaches w"
  shows "w = \<lparr>disk = blank, pending = [], alive = False, started = 0\<rparr> \<or>
         w = \<lparr>disk = blank, pending = [storage_put_init, exec_TABLE, exec_INDEX],
               alive = True, started = 1\<rparr> \<or>
         w = \<lparr>disk = \<lparr>kv_init = Some True, has_table = False, has_index = False\<rparr>,
               pending = [exec_TABLE, exec_INDEX], alive = True, started = 1\<rparr> \<or>
         w = \<lparr>disk = \<lparr>kv_init = Some True, has_table = True, has_index = False\<rparr>,
               pending = [exec_INDEX], alive = True, started = 1\<rparr> \<or>
         w = \<lparr>disk = ready, pending = [], alive = True, started = 1\<rparr> \<or>
         w = \<lparr>disk = ready, pending = [], alive = False, started = 1\<rparr>"
  using assms
proof (induction rule: lifetime_reaches.induct)
  case start
  show ?case by (simp add: unborn_def)
next
  case (next_event w ev w')
  from next_event.IH next_event.hyps(2) show ?case
    by (cases ev)
      (auto simp: blank_def ready_def isTable_def initialize_calls_def createTable_def
        split: if_splits)
qed

text \<open>
  Claim C7, as the code has it. \<open>initialize\<close> reads the flag first. When the flag is set
  it makes no storage call. When the flag is unset it sets the flag first and then creates
  the table and the index (on a storage without the index all three calls succeed); after
  a bootstrap that succeeded the flag is set. In the lifetime of a store the creating
  sequence is started exactly once, by the first instance, and it runs under exclusive
  access: while its calls are pending no other event takes place, none of its calls fails,
  and an operation finds the flag, the table and the index in place.
\<close>

theorem initialize_bootstrap:
  "(isTable c \<longrightarrow> initialize_calls c = [] \<and> initialize c = Inr c) \<and>
   (\<not> isTable c \<longrightarrow>
      initialize_calls c = [storage_put_init, exec_TABLE, exec_INDEX] \<and>
      (\<not> has_index c \<longrightarrow>
         trace (initialize_calls c) c =
           [c\<lparr>kv_init := Some True\<rparr>,
            c\<lparr>kv_init := Some True, has_table := True\<rparr>,
            c\<lparr>kv_init := Some True, has_table := True, has_index := True\<rparr>] \<and>
         initialize c = Inr (c\<lparr>kv_init := Some True, has_table := True, has_index := True\<rparr>))) \<and>
   (initialize c = Inr c' \<longrightarrow>
      isTable c' \<and> initialize_calls c' = [] \<and> initialize c' = Inr c') \<and>
   (lifetime_reaches w \<longrightarrow>
      started w \<le> 1 \<and> (started w = 0 \<longleftrightarrow> w = unborn) \<and>
      (pending w \<noteq> [] \<longrightarrow>
         alive w \<and> fire Operation w = None \<and> fire Evict w = None \<and>
         fire Construct_instance w = None \<and> fire Bootstrap_call w \<noteq> None) \<and>
      (fire Operation w \<noteq> None \<longrightarrow> disk w = ready))"
proof -
  note a = initialize_flag_set [of c]
  note b = initialize_flag_unset [of c]
  have e: "trace (initialize_calls c) c =
           [c\<lparr>kv_init := Some True\<rparr>,
            c\<lparr>kv_init := Some True, has_table := True\<rparr>,
            c\<lparr>kv_init := Some True, has_table := True, has_index := True\<rparr>] \<and>
         initialize c = Inr (c\<lparr>kv_init := Some True, has_table := True, has_index := True\<rparr>)"
    if "\<not> isTable c" "\<not> has_index c"
    using that by (simp add: initialize_def b)
  have d: "isTable c' \<and> initialize_calls c' = [] \<and> initialize c' = Inr c'"
    if r: "initialize c = Inr c'"
  proof -
    have "isTable c'"
    proof (cases "isTable c")
      case True
      with r a show ?thesis by simp
    next
      case False
      with r show ?thesis
        by (auto simp: initialize_def b isTable_def split: if_splits)
    qed
    then show ?thesis by (simp add: initialize_def initialize_calls_def)
  qed
  have l: "started w \<le> 1 \<and> (started w = 0 \<longleftrightarrow> w = unborn) \<and>
      (pending w \<noteq> [] \<longrightarrow>
         alive w \<and> fire Operation w = None \<and> fire Evict w = None \<and>
         fire Construct_instance w = None \<and> fire Bootstrap_call w \<noteq> None) \<and>
      (fire Operation w \<noteq> None \<longrightarrow> disk w = ready)"
    if "lifetime_reaches w"
    using lifetime_shapes [OF that]
    by (elim disjE) (simp_all add: unborn_def blank_def ready_def)
  from a b e d l show ?thesis by blast
qed

theorem initialize_bootstrap_witness:
  "initialize blank = Inr ready \<and> initialize ready = Inr ready \<and>
   initialize_calls ready = [] \<and>
   fire Operation \<lparr>disk = \<lparr>kv_init = Some True, has_table = False, has_index = False\<rparr>,
                    pending = [exec_TABLE, exec_INDEX], alive = True, started = 1\<rparr> = None \<and>
   fire Bootstrap_call \<lparr>disk = \<lparr>kv_init = Some True, has_table = False, has_index = False\<rparr>,
                    pending = [exec_TABLE, exec_INDEX], alive = True, started = 1\<rparr> \<noteq> None"
proof -
  let ?b = "\<lparr>kv_init = None, has_table = False, has_index = False\<rparr>"
  let ?c = "\<lparr>kv_init = Some True, has_table = True, has_index = True\<rparr>"
  let ?w1 = "\<lparr>disk = ?b, pending = [storage_put_init, exec_TABLE, exec_INDEX],
              alive = True, started = 1\<rparr>"
  let ?w2 = "\<lparr>disk = \<lparr>kv_init = Some True, has_table = False, has_index = False\<rparr>,
              pending = [exec_TABLE, exec_INDEX], alive = True, started = 1\<rparr>"
  have n: "\<not> isTable ?b" "\<not> has_index ?b" by (simp_all add: isTable_def)
  from initialize_bootstrap [of ?b ?c unborn] n have i: "initialize ?b = Inr ?c" by simp
  have "fire Construct_instance unborn = Some ?w1"
    by (simp add: unborn_def blank_def isTable_def initialize_calls_def createTable_def)
  with lifetime_reaches.start have "lifetime_reaches ?w1" by (rule lifetime_reaches.next_event)
  moreover have "fire Bootstrap_call ?w1 = Some ?w2" by simp
  ultimately have r: "lifetime_reaches ?w2" by (rule lifetime_reaches.next_event)
  from initialize_bootstrap [of ?b ?c ?w2] i r
  have "isTable ?c \<and> initialize_calls ?c = [] \<and> initialize ?c = Inr ?c"
    and "fire Operation ?w2 = None \<and> fire Bootstrap_call ?w2 \<noteq> None"
    by (blast, simp)
  with i show ?thesis unfolding blank_def ready_def by blast
qed

text \<open>
  Claim C7 as worded: with the order "create the table and the index, then set the flag",
  the flag would never be set on a storage without the table. In the code the first call of
  the bootstrap sets the flag: after it the flag is set and neither the table nor the index
  exists.
\<close>

theorem flag_set_before_table_counterexample:
  "hd (initialize_calls blank) = storage_put_init \<and>
   hd (trace (initialize_calls blank) blank)
     = \<lparr>kv_init = Some True, has_table = False, has_index = False\<rparr> \<and>
   isTable (hd (trace (initialize_calls blank) blank)) \<and>
   \<not> has_table (hd (trace (initialize_calls blank) blank))"
  by (simp add: initialize_calls_def createTable_def isTable_def blank_def)

end
